theory Spec2Isabelle
  imports Main "HOL-Library.Word"
begin

section \<open>Data model\<close>

text \<open>
  The board package (\<^verbatim>\<open>core/board/board.go\<close>) imports the packages \<^verbatim>\<open>color\<close>,
  \<^verbatim>\<open>point\<close> and \<^verbatim>\<open>move\<close> of the same repository; their sources are not
  part of the tree, so their types are taken from the specification and from the way
  \<^verbatim>\<open>board.go\<close> uses them.
\<close>

text \<open>Modelled from the spec: type \<^verbatim>\<open>color.Color\<close>, "enumerated value {Empty, Black,
  White}"; \<^verbatim>\<open>Empty\<close> is the zero value that \<^verbatim>\<open>make\<close> fills a fresh row with.\<close>

datatype Color = Empty | Black | White

text \<open>Modelled from the spec: type \<^verbatim>\<open>point.Point\<close>, an "integer coordinate pair (x, y)"
  compared by value. \<^verbatim>\<open>board.go\<close> builds points with \<^verbatim>\<open>point.New(int64(j), int64(i))\<close>
  and reads them with \<^verbatim>\<open>int(pt.X())\<close>, so a coordinate is a signed 64-bit integer:
  \<open>+\<close> and \<open>-\<close> wrap around, \<open>sint\<close> reads the signed value (Go's \<^verbatim>\<open>int\<close> is
  taken to be 64 bits wide).\<close>

type_synonym int64 = "64 word"

datatype Point = New (X: int64) (Y: int64)

text \<open>Modelled from the spec: type \<^verbatim>\<open>move.Move\<close>, "a (Color, Point) pair", built by
  \<^verbatim>\<open>move.NewMove(color, point)\<close> and read by \<^verbatim>\<open>m.Color()\<close> and \<^verbatim>\<open>m.Point()\<close>.\<close>

datatype Move = NewMove (Color: Color) (Point: Point)

text \<open>The struct \<^verbatim>\<open>Board\<close>: the grid as a slice of rows, and the ko point, a pointer
  that is \<^verbatim>\<open>nil\<close> (\<open>None\<close>) when unset.\<close>

record Board =
  board :: "Color list list"
  ko :: "Point option"

text \<open>What a call can end with instead of a result: the four errors \<^verbatim>\<open>PlaceStone\<close>
  returns (it formats them as strings), and the run-time panics of Go that the code can
  raise: an index out of range, the failed type assertion of \<^verbatim>\<open>capturedStones\<close>, and
  \<^verbatim>\<open>make\<close> with a negative length.\<close>

datatype error =
    OutOfBounds | Occupied | Suicide | IllegalKo
  | PanicIndex | PanicNotPoint | PanicMakeSlice

definition isPanic :: "error \<Rightarrow> bool" where
  "isPanic e = (e = PanicIndex \<or> e = PanicNotPoint \<or> e = PanicMakeSlice)"

text \<open>The elements of a \<^verbatim>\<open>container/list\<close> are of type \<^verbatim>\<open>interface{}\<close>: a point
  pointer, or a value of any other dynamic type.\<close>

datatype Value = PointPtr Point | OtherValue

section \<open>The grid\<close>

definition NewBoard :: "int \<Rightarrow> error + Board" where
  "NewBoard sz =
     (if sz < 0 then Inl PanicMakeSlice
      else Inr \<lparr>board = replicate (nat sz) (replicate (nat sz) Empty), ko = None\<rparr>)"

text \<open>\<^verbatim>\<open>x < len(b.board[0]) && y < len(b.board) && x >= 0 && y >= 0\<close>: the first operand
  indexes row 0, which panics on a grid without rows.\<close>

definition inBounds :: "Board \<Rightarrow> Point \<Rightarrow> error + bool" where
  "inBounds b pt =
     (let x = sint (X pt); y = sint (Y pt) in
      if board b = [] then Inl PanicIndex
      else Inr (x < int (length (board b ! 0)) \<and> y < int (length (board b)) \<and>
                x \<ge> 0 \<and> y \<ge> 0))"

text \<open>\<^verbatim>\<open>b.board[y][x]\<close>: both index operations are checked by the Go run time.\<close>

definition colorAt :: "Board \<Rightarrow> Point \<Rightarrow> error + Color" where
  "colorAt b pt =
     (let x = sint (X pt); y = sint (Y pt) in
      if 0 \<le> y \<and> y < int (length (board b)) \<and>
         0 \<le> x \<and> x < int (length (board b ! nat y))
      then Inr (board b ! nat y ! nat x)
      else Inl PanicIndex)"

definition setColor :: "Board \<Rightarrow> Move \<Rightarrow> error + Board" where
  "setColor b m =
     (let x = sint (X (Point m)); y = sint (Y (Point m)) in
      if 0 \<le> y \<and> y < int (length (board b)) \<and>
         0 \<le> x \<and> x < int (length (board b ! nat y))
      then Inr (b\<lparr>board := (board b)[nat y := (board b ! nat y)[nat x := Color m]]\<rparr>)
      else Inl PanicIndex)"

text \<open>The receiver of \<^verbatim>\<open>getNeighbors\<close> is not used by its body.\<close>

definition getNeighbors :: "Point \<Rightarrow> Point list" where
  "getNeighbors pt =
     [New (X pt + 1) (Y pt), New (X pt - 1) (Y pt),
      New (X pt) (Y pt + 1), New (X pt) (Y pt - 1)]"

section \<open>The group and liberty analyzer\<close>

text \<open>
  The loop of \<^verbatim>\<open>capturedStones\<close> (lines 99 to 119). \<open>expanded\<close> holds the keys of the
  map \<^verbatim>\<open>expanded\<close> in the order of their insertion (a key is inserted at most once,
  and no entry is ever false or deleted); \<open>queue\<close> is the list, front first. Leaving the
  loop, the code copies the keys of the map into \<^verbatim>\<open>stoneGroup\<close>; Go does not fix the
  order in which a map is iterated, and the model returns the keys in insertion order.
  The early \<^verbatim>\<open>return nil\<close> is the empty list: the callers only take the length of
  the result and append it.
\<close>

function capturedStones_loop ::
  "Board \<Rightarrow> Color \<Rightarrow> Point list \<Rightarrow> Value list \<Rightarrow> error + Point list" where
  "capturedStones_loop b c expanded [] = Inr expanded"
| "capturedStones_loop b c expanded (e # queue) =
     (case e of
        OtherValue \<Rightarrow> Inl PanicNotPoint
      | PointPtr pt1 \<Rightarrow>
          (case inBounds b pt1 of
             Inl err \<Rightarrow> Inl err
           | Inr inb \<Rightarrow>
               if \<not> inb then capturedStones_loop b c expanded queue
               else
                 (case colorAt b pt1 of
                    Inl err \<Rightarrow> Inl err
                  | Inr c1 \<Rightarrow>
                      if c1 = Empty then Inr []
                      else if c1 = c \<and> pt1 \<notin> set expanded then
                        capturedStones_loop b c (expanded @ [pt1])
                          (queue @ map PointPtr (getNeighbors pt1))
                      else capturedStones_loop b c expanded queue)))"
  by pat_completeness auto
termination
proof (relation "(\<lambda>(b, c, expanded, queue). card (- set expanded)) <*mlex*>
                 measure (\<lambda>(b, c, expanded, queue). length queue)", goal_cases)
  case 1
  show ?case by (simp add: wf_mlex)
next
  case (2 b c expanded e queue pt1 inb)
  show ?case by (simp add: mlex_iff)
next
  case (3 b c expanded e queue pt1 inb c1)
  have "(UNIV :: Point set) = (\<lambda>(x, y). New x y) ` UNIV"
    by (auto simp: image_iff) (metis Point.exhaust)
  then have "finite (UNIV :: Point set)"
    by (metis finite_imageI finite_code)
  then have fin: "finite (- set expanded)"
    by (rule finite_subset [OF subset_UNIV])
  have "- set (expanded @ [pt1]) \<subset> - set expanded"
    using 3 by auto
  then have "card (- set (expanded @ [pt1])) < card (- set expanded)"
    using fin by (rule psubset_card_mono [rotated])
  then show ?case by (simp add: mlex_iff)
next
  case (4 b c expanded e queue pt1 inb c1)
  show ?case by (simp add: mlex_iff)
qed

text \<open>\<^verbatim>\<open>capturedStones\<close> reads the colour of the start point before any bounds check.\<close>

definition capturedStones :: "Board \<Rightarrow> Point \<Rightarrow> error + Point list" where
  "capturedStones b pt =
     (case colorAt b pt of
        Inl err \<Rightarrow> Inl err
      | Inr c \<Rightarrow> capturedStones_loop b c [] [PointPtr pt])"

section \<open>Placement and ko\<close>

text \<open>The loop of \<^verbatim>\<open>findCapturedGroups\<close> over the neighbours, appending what the
  analyzer returns for each neighbour that is in bounds.\<close>

fun findCapturedGroups_loop ::
  "Board \<Rightarrow> Point list \<Rightarrow> Point list \<Rightarrow> error + Point list" where
  "findCapturedGroups_loop b [] captured = Inr captured"
| "findCapturedGroups_loop b (point # points) captured =
     (case inBounds b point of
        Inl err \<Rightarrow> Inl err
      | Inr inb \<Rightarrow>
          if inb then
            (case capturedStones b point of
               Inl err \<Rightarrow> Inl err
             | Inr stoneGroup \<Rightarrow>
                 findCapturedGroups_loop b points (captured @ stoneGroup))
          else findCapturedGroups_loop b points captured)"

definition findCapturedGroups :: "Board \<Rightarrow> Move \<Rightarrow> error + Point list" where
  "findCapturedGroups b m = findCapturedGroups_loop b (getNeighbors (Point m)) []"

text \<open>The points on which \<^verbatim>\<open>findCapturedGroups\<close> invokes the analyzer, in the order of
  the calls: line 75 runs once for every neighbour that passes the test of line 74.\<close>

definition findCapturedGroups_calls :: "Board \<Rightarrow> Move \<Rightarrow> Point list" where
  "findCapturedGroups_calls b m =
     filter (\<lambda>point. inBounds b point = Inr True) (getNeighbors (Point m))"

text \<open>\<^verbatim>\<open>removeCapturedStones\<close> writes into the grid point by point; were a write to
  panic, the earlier writes would stay.\<close>

fun removeCapturedStones :: "Board \<Rightarrow> Point list \<Rightarrow> Board \<times> error option" where
  "removeCapturedStones b [] = (b, None)"
| "removeCapturedStones b (point # captured) =
     (case setColor b (NewMove Empty point) of
        Inl err \<Rightarrow> (b, Some err)
      | Inr b' \<Rightarrow> removeCapturedStones b' captured)"

text \<open>Lines 63 and 64 of \<^verbatim>\<open>PlaceStone\<close>.\<close>

definition commitCaptures :: "Board \<Rightarrow> Point list \<Rightarrow> Board \<times> (error + Point list)" where
  "commitCaptures b captured =
     (case removeCapturedStones b captured of
        (b', Some err) \<Rightarrow> (b', Inl err)
      | (b', None) \<Rightarrow> (b', Inr captured))"

text \<open>The condition of line 51; \<^verbatim>\<open>&&\<close> evaluates its right operand, the call of the
  analyzer on the placed point, only when nothing was captured.\<close>

definition suicidal :: "Board \<Rightarrow> Move \<Rightarrow> Point list \<Rightarrow> error + bool" where
  "suicidal b m captured =
     (if length captured = 0 then
        (case capturedStones b (Point m) of
           Inl err \<Rightarrow> Inl err
         | Inr own \<Rightarrow> Inr (length own \<noteq> 0))
      else Inr False)"

text \<open>
  \<^verbatim>\<open>PlaceStone\<close> returns the Board it leaves behind together with its result: an error
  (\<open>Inl\<close>) or the captured points (\<open>Inr\<close>). A panic ends the call with the Board as
  it is at that moment.
\<close>

definition PlaceStone :: "Board \<Rightarrow> Move \<Rightarrow> Board \<times> (error + Point list)" where
  "PlaceStone b0 m =
     (let ko0 = ko b0; b = b0\<lparr>ko := None\<rparr> in
      case inBounds b (Point m) of
        Inl err \<Rightarrow> (b, Inl err)
      | Inr inb \<Rightarrow>
      if \<not> inb then (b, Inl OutOfBounds)
      else
      (case colorAt b (Point m) of
        Inl err \<Rightarrow> (b, Inl err)
      | Inr c0 \<Rightarrow>
      if c0 \<noteq> Empty then (b, Inl Occupied)
      else
      (case setColor b m of
        Inl err \<Rightarrow> (b, Inl err)
      | Inr b1 \<Rightarrow>
      (case findCapturedGroups b1 m of
        Inl err \<Rightarrow> (b1, Inl err)
      | Inr captured \<Rightarrow>
      (case suicidal b1 m captured of
        Inl err \<Rightarrow> (b1, Inl err)
      | Inr suicide \<Rightarrow>
      if suicide then
        (case setColor b1 (NewMove Empty (Point m)) of
           Inl err \<Rightarrow> (b1, Inl err)
         | Inr b2 \<Rightarrow> (b2, Inl Suicide))
      else if length captured = 1 then
        (let b2 = b1\<lparr>ko := Some (Point m)\<rparr> in
         if ko0 \<noteq> None \<and> the ko0 = captured ! 0 then
           (case setColor b2 (NewMove Empty (Point m)) of
              Inl err \<Rightarrow> (b2, Inl err)
            | Inr b3 \<Rightarrow> (b3, Inl IllegalKo))
         else commitCaptures b2 captured)
      else commitCaptures b1 captured)))))"

text \<open>The points on which one call of \<^verbatim>\<open>PlaceStone\<close> invokes the analyzer: those of
  \<^verbatim>\<open>findCapturedGroups\<close> on the grid with the stone placed (line 50), then the placed
  point itself when nothing was captured (line 51). A rejected move (lines 41 to 47)
  invokes it nowhere.\<close>

definition PlaceStone_calls :: "Board \<Rightarrow> Move \<Rightarrow> Point list" where
  "PlaceStone_calls b0 m =
     (let b = b0\<lparr>ko := None\<rparr> in
      if inBounds b (Point m) = Inr True \<and> colorAt b (Point m) = Inr Empty then
        (case setColor b m of
           Inl err \<Rightarrow> []
         | Inr b1 \<Rightarrow>
             findCapturedGroups_calls b1 m @
             (if findCapturedGroups b1 m = Inr [] then [Point m] else []))
      else [])"

text \<open>A sequence of calls on one Board: the Board after the calls, and their results.\<close>

fun PlaceStones :: "Board \<Rightarrow> Move list \<Rightarrow> Board" where
  "PlaceStones b [] = b"
| "PlaceStones b (m # ms) = PlaceStones (fst (PlaceStone b m)) ms"

fun PlaceStones_results :: "Board \<Rightarrow> Move list \<Rightarrow> (error + Point list) list" where
  "PlaceStones_results b [] = []"
| "PlaceStones_results b (m # ms) =
     snd (PlaceStone b m) # PlaceStones_results (fst (PlaceStone b m)) ms"

section \<open>Boards, groups and liberties\<close>

text \<open>A Board as \<^verbatim>\<open>NewBoard\<close> builds it and \<^verbatim>\<open>PlaceStone\<close> keeps it: at least one
  row, and every row as long as the grid is high.\<close>

definition wellFormed :: "Board \<Rightarrow> bool" where
  "wellFormed b = (board b \<noteq> [] \<and> (\<forall>row \<in> set (board b). length row = length (board b)))"

text \<open>The points of the grid, and the colour of a point of the grid, read without the checks
  of the run time.\<close>

definition onBoard :: "Board \<Rightarrow> Point \<Rightarrow> bool" where
  "onBoard b p =
     (0 \<le> sint (X p) \<and> sint (X p) < int (length (board b)) \<and>
      0 \<le> sint (Y p) \<and> sint (Y p) < int (length (board b)))"

definition cell :: "Board \<Rightarrow> Point \<Rightarrow> Color" where
  "cell b p = board b ! nat (sint (Y p)) ! nat (sint (X p))"

text \<open>The group of a point: the points reached from it through neighbours on the grid that
  hold the colour of the point. A liberty of the group is an Empty point of the grid next
  to one of its points; a neighbour outside the grid is none.\<close>

inductive_set stoneGroup :: "Board \<Rightarrow> Point \<Rightarrow> Point set" for b :: Board and p :: Point where
  start: "p \<in> stoneGroup b p"
| step: "q \<in> stoneGroup b p \<Longrightarrow> n \<in> set (getNeighbors q) \<Longrightarrow> onBoard b n \<Longrightarrow>
         cell b n = cell b p \<Longrightarrow> n \<in> stoneGroup b p"

definition hasLiberty :: "Board \<Rightarrow> Point \<Rightarrow> bool" where
  "hasLiberty b p =
     (\<exists>q \<in> stoneGroup b p. \<exists>n \<in> set (getNeighbors q). onBoard b n \<and> cell b n = Empty)"

text \<open>The invariant of a Board of size \<open>n\<close>: the grid has \<open>n\<close> rows of \<open>n\<close> cells, and
  the ko field is unset or holds a point that \<^verbatim>\<open>inBounds\<close> accepts.\<close>

definition boardInv :: "nat \<Rightarrow> Board \<Rightarrow> bool" where
  "boardInv n b =
     (length (board b) = n \<and> (\<forall>row \<in> set (board b). length row = n) \<and>
      (\<forall>p. ko b = Some p \<longrightarrow> inBounds b p = Inr True))"

section \<open>Notions of the proofs\<close>

text \<open>The invariant of the loop of \<^verbatim>\<open>capturedStones\<close> started at \<open>p\<close>: the expanded
  points are distinct points of the group; the queue holds point pointers only, each the
  start point or a neighbour of an expanded point; the start point is expanded or queued;
  and a neighbour of an expanded point that has left the queue is off the grid, or holds a
  stone that is expanded if it has the colour of the group.\<close>

definition loopInv :: "Board \<Rightarrow> Point \<Rightarrow> Point list \<Rightarrow> Value list \<Rightarrow> bool" where
  "loopInv b p expanded queue \<longleftrightarrow>
     distinct expanded \<and> set expanded \<subseteq> stoneGroup b p \<and>
     (\<forall>v \<in> set queue. \<exists>pt. v = PointPtr pt \<and>
        (pt = p \<or> (\<exists>x \<in> set expanded. pt \<in> set (getNeighbors x)))) \<and>
     (p \<in> set expanded \<or> PointPtr p \<in> set queue) \<and>
     (\<forall>x \<in> set expanded. \<forall>n \<in> set (getNeighbors x).
        PointPtr n \<in> set queue \<or> \<not> onBoard b n \<or>
        (cell b n \<noteq> Empty \<and> (cell b n = cell b p \<longrightarrow> n \<in> set expanded)))"

definition loopPost :: "Board \<Rightarrow> Point \<Rightarrow> error + Point list \<Rightarrow> bool" where
  "loopPost b p r \<longleftrightarrow>
     (hasLiberty b p \<and> r = Inr []) \<or>
     (\<not> hasLiberty b p \<and> (\<exists>xs. r = Inr xs \<and> distinct xs \<and> set xs = stoneGroup b p))"

text \<open>The write of \<^verbatim>\<open>setColor\<close>, the writes of \<^verbatim>\<open>removeCapturedStones\<close>, the result
  of the analyzer and that of \<^verbatim>\<open>findCapturedGroups\<close>, without the checks of the run time
  and without panics.\<close>

definition withStone :: "Board \<Rightarrow> Move \<Rightarrow> Board" where
  "withStone b m =
     b\<lparr>board := (board b)[nat (sint (Y (Point m))) :=
          (board b ! nat (sint (Y (Point m))))[nat (sint (X (Point m))) := Color m]]\<rparr>"

definition clearAll :: "Board \<Rightarrow> Point list \<Rightarrow> Board" where
  "clearAll b ps = foldl (\<lambda>b' p. withStone b' (NewMove Empty p)) b ps"

definition captured :: "Board \<Rightarrow> Point \<Rightarrow> Point list" where
  "captured b p = (case capturedStones b p of Inl err \<Rightarrow> [] | Inr xs \<Rightarrow> xs)"

definition neighborCaptures :: "Board \<Rightarrow> Move \<Rightarrow> Point list" where
  "neighborCaptures b m =
     concat (map (captured b) (filter (onBoard b) (getNeighbors (Point m))))"

section \<open>Positions\<close>

text \<open>The Boards that \<^verbatim>\<open>NewBoard\<close> returns for the sizes 3 and 4.\<close>

definition empty4 :: Board where
  "empty4 = \<lparr>board = replicate 4 (replicate 4 Empty), ko = None\<rparr>"

definition empty3 :: Board where
  "empty3 = \<lparr>board = replicate 3 (replicate 3 Empty), ko = None\<rparr>"

text \<open>A white group of two stones in the corner, enclosed by black stones and the edge, and
  a black stone on the edge with one Empty neighbour: the grid as the analyzer meets it
  when Black has just played (1,1).\<close>

definition cornerBoard :: Board where
  "cornerBoard = \<lparr>board = [[White, White, Black],
                           [Black, Black, Empty],
                           [Empty, Empty, Empty]], ko = None\<rparr>"

text \<open>A Board of size 4 on which White, playing at (1,1), captures the single black stone
  at (2,1), and the Board after that capture, on which Black could take back at (2,1).\<close>

definition koStart :: Board where
  "koStart = \<lparr>board = [[Empty, Black, White, Empty],
                       [Black, Empty, Black, White],
                       [Empty, Black, White, Empty],
                       [Empty, Empty, Empty, Empty]], ko = None\<rparr>"

definition koTaken :: Board where
  "koTaken = \<lparr>board = [[Empty, Black, White, Empty],
                       [Black, White, Empty, White],
                       [Empty, Black, White, Empty],
                       [Empty, Empty, Empty, Empty]], ko = Some (New 1 1)\<rparr>"

text \<open>The ko position after Black has played elsewhere, at (3,3), and after Black has then
  taken back at (2,1).\<close>

definition koElsewhere :: Board where
  "koElsewhere = \<lparr>board = [[Empty, Black, White, Empty],
                           [Black, White, Empty, White],
                           [Empty, Black, White, Empty],
                           [Empty, Empty, Empty, Black]], ko = None\<rparr>"

definition koRetaken :: Board where
  "koRetaken = \<lparr>board = [[Empty, Black, White, Empty],
                         [Black, Empty, Black, White],
                         [Empty, Black, White, Empty],
                         [Empty, Empty, Empty, Black]], ko = Some (New 2 1)\<rparr>"

text \<open>A game on the Board of size 4: seven moves build the ko position, White captures,
  Black is refused the ko, and two more moves are rejected.\<close>

definition koGame :: "Move list" where
  "koGame =
     [NewMove Black (New 1 0), NewMove White (New 2 0), NewMove Black (New 0 1),
      NewMove White (New 3 1), NewMove Black (New 2 1), NewMove White (New 2 2),
      NewMove Black (New 1 2), NewMove White (New 1 1), NewMove Black (New 2 1),
      NewMove Black (New 9 9), NewMove Black (New 0 1)]"

text \<open>Black has a stone in the corner at (0,0) whose last liberty is (0,1); the white stones
  around have liberties of their own.\<close>

definition suicideBoard :: Board where
  "suicideBoard = \<lparr>board = [[Black, White, Empty],
                            [Empty, White, Empty],
                            [White, Empty, Empty]], ko = None\<rparr>"

text \<open>Black, playing at (1,0), takes the last liberty of the white stones at (0,1) and
  (1,1); the black stone at (0,0) has no other liberty than (1,0) while they stand.\<close>

definition snapBoard :: Board where
  "snapBoard = \<lparr>board = [[Black, Empty, White, Empty],
                         [White, White, Black, Empty],
                         [Black, Black, Empty, Empty],
                         [Empty, Empty, Empty, Empty]], ko = None\<rparr>"

text \<open>The capture scenario of the specification: a white stone at (1,1) with black stones at
  (0,1), (1,0) and (1,2), before Black plays (2,1).\<close>

definition crossBoard :: Board where
  "crossBoard = \<lparr>board = [[Empty, Black, Empty],
                          [Black, White, Empty],
                          [Empty, Black, Empty]], ko = None\<rparr>"

text \<open>Three white stones around the corner (0,0), whose last liberty is (1,1) and which
  touch (1,1) from two sides.\<close>

definition elbowBoard :: Board where
  "elbowBoard = \<lparr>board = [[White, White, Black],
                          [White, Empty, Empty],
                          [Black, Empty, Empty]], ko = None\<rparr>"

section \<open>Coordinates and neighbours\<close>

text \<open>Coordinates are 64-bit words. Between two points with coordinates that are not negative,
  as all points of a grid are, the neighbours that \<^verbatim>\<open>getNeighbors\<close> computes with
  wrap-around are the points at distance 1.\<close>

lemma sint_plus_one:
  assumes "sint (x::int64) + 1 < 2 ^ 63" and "0 \<le> sint x"
  shows "sint (x + 1) = sint x + 1"
  using assms by (simp add: sint_word_add signed_take_bit_int_eq_self)

lemma sint_minus_one:
  assumes "0 \<le> sint (x::int64)"
  shows "sint (x - 1) = sint x - 1"
proof -
  have "sint x < 2 ^ 63" using sint_lt [of x] by simp
  then show ?thesis
    using assms by (simp add: sint_word_diff signed_take_bit_int_eq_self)
qed

lemma sint_succ:
  assumes "0 \<le> sint (x::int64)" and "0 \<le> sint (x + 1)"
  shows "sint (x + 1) = sint x + 1"
proof (cases "sint x + 1 < 2 ^ 63")
  case True
  then show ?thesis using assms(1) by (rule sint_plus_one)
next
  case False
  moreover have "sint x < 2 ^ 63" using sint_lt [of x] by simp
  ultimately have "sint x + 1 = 2 ^ 63" by simp
  then have "sint (x + 1) = - (2 ^ 63)"
    by (simp add: sint_word_add signed_take_bit_eq_take_bit_shift)
  then show ?thesis using assms(2) by simp
qed

lemma sint_eq_plus_one:
  assumes "0 \<le> sint (x::int64)" and "sint (y::int64) = sint x + 1"
  shows "y = x + 1"
proof -
  have "sint y < 2 ^ 63" using sint_lt [of y] by simp
  then have "sint (x + 1) = sint x + 1" using assms by (intro sint_plus_one) simp_all
  then have "sint y = sint (x + 1)" using assms(2) by simp
  then show ?thesis by (rule signed_word_eqI)
qed

lemma sint_eq_minus_one:
  assumes "0 \<le> sint (x::int64)" and "sint (y::int64) = sint x - 1"
  shows "y = x - 1"
proof -
  have "sint y = sint (x - 1)" using sint_minus_one [OF assms(1)] assms(2) by simp
  then show ?thesis by (rule signed_word_eqI)
qed

lemma sint_nat_inj:
  "0 \<le> sint (x::int64) \<Longrightarrow> 0 \<le> sint (y::int64) \<Longrightarrow> nat (sint x) = nat (sint y) \<longleftrightarrow> x = y"
proof -
  have "x = y" if "sint x = sint y"
    using that by (simp add: signed_word_eqI)
  then show "0 \<le> sint x \<Longrightarrow> 0 \<le> sint y \<Longrightarrow> nat (sint x) = nat (sint y) \<longleftrightarrow> x = y"
    by auto
qed

lemma getNeighbors_adjacent:
  assumes p: "0 \<le> sint (X p)" "0 \<le> sint (Y p)" and n: "0 \<le> sint (X n)" "0 \<le> sint (Y n)"
  shows "n \<in> set (getNeighbors p) \<longleftrightarrow>
           \<bar>sint (X n) - sint (X p)\<bar> + \<bar>sint (Y n) - sint (Y p)\<bar> = 1"
proof
  assume "n \<in> set (getNeighbors p)"
  then consider "X n = X p + 1" "Y n = Y p" | "X n = X p - 1" "Y n = Y p"
    | "X n = X p" "Y n = Y p + 1" | "X n = X p" "Y n = Y p - 1"
    by (auto simp: getNeighbors_def)
  then show "\<bar>sint (X n) - sint (X p)\<bar> + \<bar>sint (Y n) - sint (Y p)\<bar> = 1"
  proof cases
    case 1
    then show ?thesis using sint_succ [OF p(1)] n(1) by simp
  next
    case 2
    then show ?thesis using sint_minus_one [OF p(1)] by simp
  next
    case 3
    then show ?thesis using sint_succ [OF p(2)] n(2) by simp
  next
    case 4
    then show ?thesis using sint_minus_one [OF p(2)] by simp
  qed
next
  assume "\<bar>sint (X n) - sint (X p)\<bar> + \<bar>sint (Y n) - sint (Y p)\<bar> = 1"
  then consider "sint (X n) = sint (X p) + 1" "sint (Y n) = sint (Y p)"
    | "sint (X n) = sint (X p) - 1" "sint (Y n) = sint (Y p)"
    | "sint (X n) = sint (X p)" "sint (Y n) = sint (Y p) + 1"
    | "sint (X n) = sint (X p)" "sint (Y n) = sint (Y p) - 1"
    by linarith
  then have "n = New (X p + 1) (Y p) \<or> n = New (X p - 1) (Y p) \<or>
             n = New (X p) (Y p + 1) \<or> n = New (X p) (Y p - 1)"
  proof cases
    case 1
    then have "X n = X p + 1" "Y n = Y p"
      using sint_eq_plus_one [OF p(1)] by (simp_all add: signed_word_eqI)
    then show ?thesis by (cases n) simp
  next
    case 2
    then have "X n = X p - 1" "Y n = Y p"
      using sint_eq_minus_one [OF p(1)] by (simp_all add: signed_word_eqI)
    then show ?thesis by (cases n) simp
  next
    case 3
    then have "X n = X p" "Y n = Y p + 1"
      using sint_eq_plus_one [OF p(2)] by (simp_all add: signed_word_eqI)
    then show ?thesis by (cases n) simp
  next
    case 4
    then have "X n = X p" "Y n = Y p - 1"
      using sint_eq_minus_one [OF p(2)] by (simp_all add: signed_word_eqI)
    then show ?thesis by (cases n) simp
  qed
  then show "n \<in> set (getNeighbors p)" by (auto simp: getNeighbors_def)
qed

lemma getNeighbors_onBoard:
  "onBoard b p \<Longrightarrow> onBoard b n \<Longrightarrow>
   n \<in> set (getNeighbors p) \<longleftrightarrow>
     \<bar>sint (X n) - sint (X p)\<bar> + \<bar>sint (Y n) - sint (Y p)\<bar> = 1"
  by (rule getNeighbors_adjacent) (simp_all add: onBoard_def)

lemma getNeighbors_sym: "n \<in> set (getNeighbors q) \<Longrightarrow> q \<in> set (getNeighbors n)"
  by (cases q; cases n) (auto simp: getNeighbors_def)

lemma getNeighbors_irrefl: "q \<notin> set (getNeighbors q)"
  by (cases q) (simp add: getNeighbors_def)

section \<open>Groups\<close>

text \<open>The groups are the classes of an equivalence on the points of the grid.\<close>

lemma stoneGroup_cell: "q \<in> stoneGroup b p \<Longrightarrow> cell b q = cell b p"
  by (induction rule: stoneGroup.induct) simp_all

lemma stoneGroup_onBoard: "q \<in> stoneGroup b p \<Longrightarrow> onBoard b p \<Longrightarrow> onBoard b q"
  by (induction rule: stoneGroup.induct) simp_all

lemma stoneGroup_trans:
  "r \<in> stoneGroup b q \<Longrightarrow> q \<in> stoneGroup b p \<Longrightarrow> r \<in> stoneGroup b p"
proof (induction rule: stoneGroup.induct)
  case start
  then show ?case by simp
next
  case (step r n)
  then show ?case
    using stoneGroup_cell [of q b p] by (auto intro: stoneGroup.step)
qed

lemma stoneGroup_sym:
  "q \<in> stoneGroup b p \<Longrightarrow> onBoard b p \<Longrightarrow> p \<in> stoneGroup b q"
proof (induction rule: stoneGroup.induct)
  case start
  show ?case by (rule stoneGroup.start)
next
  case (step q n)
  have "q \<in> stoneGroup b n"
  proof (rule stoneGroup.step [OF stoneGroup.start])
    show "q \<in> set (getNeighbors n)" using step.hyps(2) by (rule getNeighbors_sym)
    show "onBoard b q" using step.hyps(1) step.prems by (rule stoneGroup_onBoard)
    show "cell b q = cell b n" using stoneGroup_cell [OF step.hyps(1)] step.hyps(4) by simp
  qed
  then show ?case using step.IH [OF step.prems] by (rule stoneGroup_trans [rotated])
qed

lemma stoneGroup_eq:
  assumes "q \<in> stoneGroup b p" and "onBoard b p"
  shows "stoneGroup b q = stoneGroup b p"
  using assms stoneGroup_sym [OF assms] by (auto intro: stoneGroup_trans)

lemma hasLiberty_eq:
  "q \<in> stoneGroup b p \<Longrightarrow> onBoard b p \<Longrightarrow> hasLiberty b q = hasLiberty b p"
  by (simp add: hasLiberty_def stoneGroup_eq)

text \<open>A stone alone in its group and without liberty: every neighbour on the grid holds a
  stone of another colour.\<close>

lemma lone_stoneI:
  assumes nb: "\<forall>n \<in> set (getNeighbors q). onBoard b n \<longrightarrow> cell b n \<noteq> Empty \<and> cell b n \<noteq> cell b q"
  shows "stoneGroup b q = {q}" and "\<not> hasLiberty b q"
proof -
  have "x = q" if "x \<in> stoneGroup b q" for x
    using that by (induction rule: stoneGroup.induct) (use nb in auto)
  then show g: "stoneGroup b q = {q}" using stoneGroup.start [of q b] by auto
  show "\<not> hasLiberty b q" unfolding hasLiberty_def g using nb by auto
qed

lemma lone_stoneD:
  assumes g: "stoneGroup b q = {q}" and l: "\<not> hasLiberty b q"
    and n: "n \<in> set (getNeighbors q)" and on: "onBoard b n"
  shows "cell b n \<noteq> Empty \<and> cell b n \<noteq> cell b q"
proof -
  have "cell b n \<noteq> Empty"
    using l n on stoneGroup.start [of q b] unfolding hasLiberty_def by blast
  moreover have "cell b n \<noteq> cell b q"
  proof
    assume "cell b n = cell b q"
    then have "n \<in> stoneGroup b q"
      using stoneGroup.step [OF stoneGroup.start n on] by simp
    then show False using g n getNeighbors_irrefl [of q] by simp
  qed
  ultimately show ?thesis by simp
qed

section \<open>The loop of the analyzer\<close>

lemma inBounds_wellFormed: "wellFormed b \<Longrightarrow> inBounds b p = Inr (onBoard b p)"
  by (auto simp: wellFormed_def inBounds_def onBoard_def Let_def)

lemma colorAt_onBoard: "wellFormed b \<Longrightarrow> onBoard b p \<Longrightarrow> colorAt b p = Inr (cell b p)"
  by (auto simp: wellFormed_def colorAt_def onBoard_def cell_def Let_def)

lemma loopInv_skip:
  assumes inv: "loopInv b p ex (PointPtr pt1 # queue)"
    and p: "onBoard b p"
    and dq: "\<not> onBoard b pt1 \<or> (cell b pt1 \<noteq> Empty \<and> (cell b pt1 = cell b p \<longrightarrow> pt1 \<in> set ex))"
  shows "loopInv b p ex queue"
  unfolding loopInv_def
proof (intro conjI)
  show "distinct ex" using inv unfolding loopInv_def by simp
  show "set ex \<subseteq> stoneGroup b p" using inv unfolding loopInv_def by simp
  show "\<forall>v\<in>set queue. \<exists>pt. v = PointPtr pt \<and>
          (pt = p \<or> (\<exists>x\<in>set ex. pt \<in> set (getNeighbors x)))"
    using inv unfolding loopInv_def by simp
  have "p \<in> set ex \<or> p = pt1 \<or> PointPtr p \<in> set queue"
    using inv unfolding loopInv_def by auto
  then show "p \<in> set ex \<or> PointPtr p \<in> set queue"
    using p dq by blast
  show "\<forall>x\<in>set ex. \<forall>n\<in>set (getNeighbors x).
          PointPtr n \<in> set queue \<or> \<not> onBoard b n \<or>
          (cell b n \<noteq> Empty \<and> (cell b n = cell b p \<longrightarrow> n \<in> set ex))"
  proof (intro ballI)
    fix x n assume x: "x \<in> set ex" and n: "n \<in> set (getNeighbors x)"
    have "PointPtr n \<in> set (PointPtr pt1 # queue) \<or> \<not> onBoard b n \<or>
          (cell b n \<noteq> Empty \<and> (cell b n = cell b p \<longrightarrow> n \<in> set ex))"
      using inv x n unfolding loopInv_def by blast
    then show "PointPtr n \<in> set queue \<or> \<not> onBoard b n \<or>
          (cell b n \<noteq> Empty \<and> (cell b n = cell b p \<longrightarrow> n \<in> set ex))"
      using dq by auto
  qed
qed

lemma loopInvD:
  assumes "loopInv b p ex queue"
  shows "distinct ex" and "set ex \<subseteq> stoneGroup b p"
    and "\<And>v. v \<in> set queue \<Longrightarrow> \<exists>pt. v = PointPtr pt \<and>
          (pt = p \<or> (\<exists>x\<in>set ex. pt \<in> set (getNeighbors x)))"
    and "p \<in> set ex \<or> PointPtr p \<in> set queue"
    and "\<And>x n. x \<in> set ex \<Longrightarrow> n \<in> set (getNeighbors x) \<Longrightarrow>
          PointPtr n \<in> set queue \<or> \<not> onBoard b n \<or>
          (cell b n \<noteq> Empty \<and> (cell b n = cell b p \<longrightarrow> n \<in> set ex))"
  using assms unfolding loopInv_def by blast+

lemma loopInv_front:
  assumes inv: "loopInv b p ex (PointPtr pt1 # queue)"
  shows "pt1 = p \<or> (\<exists>x\<in>set ex. pt1 \<in> set (getNeighbors x))"
  using loopInvD(3) [OF inv, of "PointPtr pt1"] by simp

lemma loopInv_expand:
  assumes inv: "loopInv b p ex (PointPtr pt1 # queue)"
    and c: "cell b p \<noteq> Empty" and on: "onBoard b pt1" and same: "cell b pt1 = cell b p"
    and new: "pt1 \<notin> set ex"
  shows "loopInv b p (ex @ [pt1]) (queue @ map PointPtr (getNeighbors pt1))"
proof -
  have grp: "pt1 \<in> stoneGroup b p"
  proof (cases "pt1 = p")
    case True
    then show ?thesis by (simp add: stoneGroup.start)
  next
    case False
    then obtain x where "x \<in> set ex" "pt1 \<in> set (getNeighbors x)"
      using loopInv_front [OF inv] by blast
    then show ?thesis
      using loopInvD(2) [OF inv] on same by (blast intro: stoneGroup.step)
  qed
  show ?thesis
    unfolding loopInv_def
  proof (intro conjI ballI)
    show "distinct (ex @ [pt1])" using loopInvD(1) [OF inv] new by simp
    show "set (ex @ [pt1]) \<subseteq> stoneGroup b p" using loopInvD(2) [OF inv] grp by simp
  next
    fix v assume "v \<in> set (queue @ map PointPtr (getNeighbors pt1))"
    then consider "v \<in> set queue" | n where "v = PointPtr n" "n \<in> set (getNeighbors pt1)"
      by auto
    then show "\<exists>pt. v = PointPtr pt \<and>
        (pt = p \<or> (\<exists>x\<in>set (ex @ [pt1]). pt \<in> set (getNeighbors x)))"
    proof cases
      case 1
      then obtain pt where "v = PointPtr pt"
        "pt = p \<or> (\<exists>x\<in>set ex. pt \<in> set (getNeighbors x))"
        using loopInvD(3) [OF inv, of v] by auto
      then show ?thesis by auto
    next
      case 2
      then show ?thesis by auto
    qed
  next
    show "p \<in> set (ex @ [pt1]) \<or> PointPtr p \<in> set (queue @ map PointPtr (getNeighbors pt1))"
      using loopInvD(4) [OF inv] by auto
  next
    fix x n assume x: "x \<in> set (ex @ [pt1])" and n: "n \<in> set (getNeighbors x)"
    show "PointPtr n \<in> set (queue @ map PointPtr (getNeighbors pt1)) \<or> \<not> onBoard b n \<or>
       cell b n \<noteq> Empty \<and> (cell b n = cell b p \<longrightarrow> n \<in> set (ex @ [pt1]))"
    proof (cases "x = pt1")
      case True
      then show ?thesis using n by simp
    next
      case False
      then have "x \<in> set ex" using x by simp
      from loopInvD(5) [OF inv this n]
      have "n = pt1 \<or> PointPtr n \<in> set queue \<or> \<not> onBoard b n \<or>
          (cell b n \<noteq> Empty \<and> (cell b n = cell b p \<longrightarrow> n \<in> set ex))"
        by auto
      then show ?thesis using c same by auto
    qed
  qed
qed

lemma loopInv_done:
  assumes inv: "loopInv b p ex []"
  shows "\<not> hasLiberty b p \<and> set ex = stoneGroup b p \<and> distinct ex"
proof -
  have nb: "\<not> onBoard b n \<or> (cell b n \<noteq> Empty \<and> (cell b n = cell b p \<longrightarrow> n \<in> set ex))"
    if "x \<in> set ex" "n \<in> set (getNeighbors x)" for x n
    using loopInvD(5) [OF inv that] by simp
  have closed: "q \<in> set ex" if "q \<in> stoneGroup b p" for q
    using that
  proof (induction rule: stoneGroup.induct)
    case start
    then show ?case using loopInvD(4) [OF inv] by simp
  next
    case (step q n)
    then show ?case using nb [of q n] by blast
  qed
  then have eq: "set ex = stoneGroup b p"
    using loopInvD(2) [OF inv] by blast
  have "\<not> hasLiberty b p"
    unfolding hasLiberty_def using nb eq by blast
  then show ?thesis using eq loopInvD(1) [OF inv] by simp
qed

lemma loopInv_liberty:
  assumes inv: "loopInv b p ex (PointPtr pt1 # queue)"
    and c: "cell b p \<noteq> Empty" and on: "onBoard b pt1" and empty: "cell b pt1 = Empty"
  shows "hasLiberty b p"
proof -
  have "pt1 \<noteq> p" using c empty by auto
  then obtain x where "x \<in> set ex" "pt1 \<in> set (getNeighbors x)"
    using loopInv_front [OF inv] by blast
  then show ?thesis
    unfolding hasLiberty_def using loopInvD(2) [OF inv] on empty by blast
qed

lemma capturedStones_loop_correct:
  "wellFormed b \<Longrightarrow> onBoard b p \<Longrightarrow> c = cell b p \<Longrightarrow> c \<noteq> Empty \<Longrightarrow>
   loopInv b p expanded queue \<Longrightarrow>
   loopPost b p (capturedStones_loop b c expanded queue)"
proof (induction b c expanded queue rule: capturedStones_loop.induct)
  case (1 b c expanded)
  then show ?case using loopInv_done [of b p expanded] by (simp add: loopPost_def)
next
  case (2 b c expanded e queue)
  note wf = "2.prems"(1) and p = "2.prems"(2) and c = "2.prems"(3) and ne = "2.prems"(4)
  from "2.prems"(5) obtain pt1 where e: "e = PointPtr pt1"
    unfolding loopInv_def by auto
  have inv: "loopInv b p expanded (PointPtr pt1 # queue)" using "2.prems"(5) e by simp
  have inb: "inBounds b pt1 = Inr (onBoard b pt1)" by (rule inBounds_wellFormed [OF wf])
  show ?case
  proof (cases "onBoard b pt1")
    case False
    have "loopInv b p expanded queue" using loopInv_skip [OF inv p] False by simp
    then have "loopPost b p (capturedStones_loop b c expanded queue)"
      using "2.IH"(1) [OF e inb _ wf p c ne] False by simp
    then show ?thesis using False e inb by simp
  next
    case True
    note on = True
    have col: "colorAt b pt1 = Inr (cell b pt1)" by (rule colorAt_onBoard [OF wf on])
    show ?thesis
    proof (cases "cell b pt1 = Empty")
      case True
      have "hasLiberty b p" using loopInv_liberty [OF inv _ on True] c ne by simp
      then show ?thesis
        using e inb on col True by (simp add: loopPost_def)
    next
      case False
      note nE = False
      show ?thesis
      proof (cases "cell b pt1 = c \<and> pt1 \<notin> set expanded")
        case True
        have "loopInv b p (expanded @ [pt1]) (queue @ map PointPtr (getNeighbors pt1))"
          using loopInv_expand [OF inv _ on] True c ne by simp
        then have "loopPost b p (capturedStones_loop b c (expanded @ [pt1])
            (queue @ map PointPtr (getNeighbors pt1)))"
          using "2.IH"(2) [OF e inb _ col nE True wf p c ne] on by simp
        then show ?thesis using True nE on e inb col by simp
      next
        case False
        have "loopInv b p expanded queue" using loopInv_skip [OF inv p] False nE c by blast
        then have "loopPost b p (capturedStones_loop b c expanded queue)"
          using "2.IH"(3) [OF e inb _ col nE False wf p c ne] on by simp
        then show ?thesis using False nE on e inb col by auto
      qed
    qed
  qed
qed

lemma capturedStones_post:
  assumes wf: "wellFormed b" and on: "onBoard b pt" and c: "cell b pt \<noteq> Empty"
  shows "loopPost b pt (capturedStones b pt)"
proof -
  have inv: "loopInv b pt [] [PointPtr pt]" by (simp add: loopInv_def)
  have "capturedStones b pt = capturedStones_loop b (cell b pt) [] [PointPtr pt]"
    by (simp add: capturedStones_def colorAt_onBoard [OF wf on] del: capturedStones_loop.simps)
  then show ?thesis
    using capturedStones_loop_correct [OF wf on refl c inv] by simp
qed

text \<open>The queue of the traversal only ever holds point pointers, so the type assertion of
  line 102 cannot fail, on any Board.\<close>

lemma capturedStones_loop_points:
  "\<forall>v \<in> set queue. \<exists>p. v = PointPtr p \<Longrightarrow>
   capturedStones_loop b c expanded queue \<noteq> Inl PanicNotPoint"
proof (induction b c expanded queue rule: capturedStones_loop.induct)
  case (1 b c expanded)
  then show ?case by simp
next
  case (2 b c expanded e queue)
  then obtain pt1 where e: "e = PointPtr pt1" by auto
  have q: "\<forall>v \<in> set queue. \<exists>p. v = PointPtr p" using "2.prems" by simp
  then have q': "\<forall>v \<in> set (queue @ map PointPtr (getNeighbors pt1)). \<exists>p. v = PointPtr p"
    by auto
  have ib: "inBounds b pt1 \<noteq> Inl PanicNotPoint" and ca: "colorAt b pt1 \<noteq> Inl PanicNotPoint"
    by (simp_all add: inBounds_def colorAt_def Let_def)
  show ?case
  proof (cases "inBounds b pt1")
    case (Inl err)
    then show ?thesis using e ib by simp
  next
    case (Inr inb)
    note inb = Inr
    show ?thesis
    proof (cases inb)
      case False
      then show ?thesis using e inb "2.IH"(1) [OF e inb _ q] by simp
    next
      case True
      show ?thesis
      proof (cases "colorAt b pt1")
        case (Inl err)
        then show ?thesis using e inb True ca by simp
      next
        case (Inr c1)
        show ?thesis
          using e inb True Inr
            "2.IH"(2) [OF e inb _ Inr _ _ q'] "2.IH"(3) [OF e inb _ Inr _ _ q]
          by simp
      qed
    qed
  qed
qed

lemma capturedStones_points: "capturedStones b pt \<noteq> Inl PanicNotPoint"
proof (cases "colorAt b pt")
  case (Inl err)
  then show ?thesis by (auto simp: capturedStones_def colorAt_def Let_def split: if_splits)
next
  case (Inr c)
  then show ?thesis
    using capturedStones_loop_points [of "[PointPtr pt]" b c "[]"]
    by (simp add: capturedStones_def del: capturedStones_loop.simps)
qed

section \<open>What a call of PlaceStone computes on a well-formed Board\<close>

text \<open>On a well-formed Board the checks of the run time pass wherever the code reads or
  writes the grid, so that its functions can be described without them: \<open>withStone\<close> is
  the write of \<^verbatim>\<open>setColor\<close>, \<open>clearAll\<close> the writes of \<^verbatim>\<open>removeCapturedStones\<close>,
  \<open>captured\<close> the result of the analyzer and \<open>neighborCaptures\<close> that of
  \<^verbatim>\<open>findCapturedGroups\<close>.\<close>

lemma wellFormed_ko [simp]: "wellFormed (b\<lparr>ko := k\<rparr>) = wellFormed b"
  by (simp add: wellFormed_def)

lemma onBoard_ko [simp]: "onBoard (b\<lparr>ko := k\<rparr>) p = onBoard b p"
  by (simp add: onBoard_def)

lemma cell_ko [simp]: "cell (b\<lparr>ko := k\<rparr>) p = cell b p"
  by (simp add: cell_def)

lemma onBoard_index:
  assumes "onBoard b p"
  shows "nat (sint (Y p)) < length (board b)" and "nat (sint (X p)) < length (board b)"
  using assms unfolding onBoard_def by (simp_all add: nat_less_iff)

lemma onBoard_row:
  assumes "wellFormed b" and "onBoard b p"
  shows "length (board b ! nat (sint (Y p))) = length (board b)"
  using assms onBoard_index(1) [OF assms(2)] unfolding wellFormed_def by simp

lemma setColor_onBoard:
  assumes "wellFormed b" and "onBoard b (Point m)"
  shows "setColor b m = Inr (withStone b m)"
  using onBoard_row [OF assms] assms(2)
  by (simp add: setColor_def onBoard_def withStone_def Let_def)

lemma wellFormed_withStone:
  assumes wf: "wellFormed b"
  shows "wellFormed (withStone b m)"
proof (cases "nat (sint (Y (Point m))) < length (board b)")
  case True
  let ?row = "(board b ! nat (sint (Y (Point m))))[nat (sint (X (Point m))) := Color m]"
  have "length ?row = length (board b)"
    using wf True unfolding wellFormed_def by simp
  moreover have "set (board (withStone b m)) \<subseteq> insert ?row (set (board b))"
    unfolding withStone_def by (simp add: set_update_subset_insert)
  ultimately have "\<forall>row \<in> set (board (withStone b m)). length row = length (board b)"
    using wf unfolding wellFormed_def by blast
  moreover have "length (board (withStone b m)) = length (board b)"
    by (simp add: withStone_def)
  ultimately show ?thesis using wf unfolding wellFormed_def by auto
next
  case False
  then have "withStone b m = b" by (simp add: withStone_def list_update_beyond)
  then show ?thesis using wf by simp
qed

lemma onBoard_withStone [simp]: "onBoard (withStone b m) q = onBoard b q"
  by (simp add: onBoard_def withStone_def)

lemma ko_withStone [simp]: "ko (withStone b m) = ko b"
  by (simp add: withStone_def)

lemma withStone_ko: "withStone (b\<lparr>ko := k\<rparr>) m = (withStone b m)\<lparr>ko := k\<rparr>"
  by (simp add: withStone_def)

lemma length_board_withStone [simp]: "length (board (withStone b m)) = length (board b)"
  by (simp add: withStone_def)

lemma cell_withStone:
  assumes wf: "wellFormed b" and m: "onBoard b (Point m)" and q: "onBoard b q"
  shows "cell (withStone b m) q = (if q = Point m then Color m else cell b q)"
proof -
  have len: "length (board b ! nat (sint (Y (Point m)))) = length (board b)"
    by (rule onBoard_row [OF wf m])
  note im = onBoard_index [OF m] and iq = onBoard_index [OF q]
  show ?thesis
  proof (cases "q = Point m")
    case True
    then show ?thesis using im len by (simp add: cell_def withStone_def)
  next
    case False
    then have "X q \<noteq> X (Point m) \<or> Y q \<noteq> Y (Point m)"
      by (cases q; cases "Point m") auto
    then have "nat (sint (X q)) \<noteq> nat (sint (X (Point m))) \<or>
               nat (sint (Y q)) \<noteq> nat (sint (Y (Point m)))"
      using m q sint_nat_inj unfolding onBoard_def by blast
    then show ?thesis using False im iq len
      by (auto simp: cell_def withStone_def nth_list_update)
  qed
qed

lemma withStone_same: "withStone b (NewMove (cell b p) p) = b"
  by (simp add: withStone_def cell_def)

lemma withStone_twice:
  "onBoard b p \<Longrightarrow> withStone (withStone b (NewMove c p)) (NewMove c' p) = withStone b (NewMove c' p)"
  using onBoard_index(1) [of b p] by (simp add: withStone_def)

lemma wellFormed_clearAll: "wellFormed b \<Longrightarrow> wellFormed (clearAll b ps)"
  unfolding clearAll_def by (induction ps arbitrary: b) (simp_all add: wellFormed_withStone)

lemma onBoard_clearAll [simp]: "onBoard (clearAll b ps) q = onBoard b q"
  unfolding clearAll_def by (induction ps arbitrary: b) simp_all

lemma ko_clearAll [simp]: "ko (clearAll b ps) = ko b"
  unfolding clearAll_def by (induction ps arbitrary: b) simp_all

lemma length_board_clearAll [simp]: "length (board (clearAll b ps)) = length (board b)"
  unfolding clearAll_def by (induction ps arbitrary: b) simp_all

lemma clearAll_Nil [simp]: "clearAll b [] = b"
  by (simp add: clearAll_def)

lemma cell_clearAll:
  "wellFormed b \<Longrightarrow> \<forall>p \<in> set ps. onBoard b p \<Longrightarrow> onBoard b q \<Longrightarrow>
   cell (clearAll b ps) q = (if q \<in> set ps then Empty else cell b q)"
  unfolding clearAll_def
proof (induction ps arbitrary: b)
  case Nil
  then show ?case by simp
next
  case (Cons p ps)
  have "cell (foldl (\<lambda>b' p. withStone b' (NewMove Empty p)) (withStone b (NewMove Empty p)) ps) q =
        (if q \<in> set ps then Empty else cell (withStone b (NewMove Empty p)) q)"
    using Cons.prems by (intro Cons.IH) (simp_all add: wellFormed_withStone)
  then show ?case using Cons.prems by (simp add: cell_withStone)
qed

lemma removeCapturedStones_onBoard:
  "wellFormed b \<Longrightarrow> \<forall>p \<in> set ps. onBoard b p \<Longrightarrow>
   removeCapturedStones b ps = (clearAll b ps, None)"
  unfolding clearAll_def
  by (induction ps arbitrary: b) (simp_all add: setColor_onBoard wellFormed_withStone)

lemma capturedStones_Empty:
  "wellFormed b \<Longrightarrow> onBoard b p \<Longrightarrow> cell b p = Empty \<Longrightarrow> capturedStones b p = Inr []"
  by (simp add: capturedStones_def colorAt_onBoard inBounds_wellFormed)

lemma capturedStones_total:
  assumes wf: "wellFormed b" and on: "onBoard b p"
  shows "capturedStones b p = Inr (captured b p) \<and> (\<forall>x \<in> set (captured b p). onBoard b x)"
proof (cases "cell b p = Empty")
  case True
  then show ?thesis using capturedStones_Empty [OF wf on] by (simp add: captured_def)
next
  case False
  then show ?thesis
    using capturedStones_post [OF wf on False] stoneGroup_onBoard [OF _ on]
    by (auto simp: loopPost_def captured_def)
qed

lemma captured_cases:
  assumes wf: "wellFormed b" and on: "onBoard b n"
  shows "captured b n = [] \<and> (cell b n = Empty \<or> hasLiberty b n) \<or>
         cell b n \<noteq> Empty \<and> \<not> hasLiberty b n \<and> distinct (captured b n) \<and>
           set (captured b n) = stoneGroup b n"
proof (cases "cell b n = Empty")
  case True
  then show ?thesis using capturedStones_Empty [OF wf on] by (simp add: captured_def)
next
  case False
  from capturedStones_post [OF wf on False]
  consider "hasLiberty b n" "capturedStones b n = Inr []"
    | xs where "\<not> hasLiberty b n" "capturedStones b n = Inr xs" "distinct xs"
        "set xs = stoneGroup b n"
    unfolding loopPost_def by blast
  then show ?thesis
    by cases (simp_all add: captured_def False)
qed

lemma findCapturedGroups_loop_eq:
  "wellFormed b \<Longrightarrow> findCapturedGroups_loop b pts acc =
     Inr (acc @ concat (map (captured b) (filter (onBoard b) pts)))"
proof (induction pts arbitrary: acc)
  case Nil
  then show ?case by simp
next
  case (Cons p pts)
  note wf = Cons.prems
  show ?case
  proof (cases "onBoard b p")
    case True
    have "capturedStones b p = Inr (captured b p)"
      using capturedStones_total [OF wf True] by simp
    then show ?thesis
      using True Cons.IH [OF wf] by (simp add: inBounds_wellFormed [OF wf])
  next
    case False
    then show ?thesis
      using Cons.IH [OF wf] by (simp add: inBounds_wellFormed [OF wf])
  qed
qed

lemma findCapturedGroups_eq:
  "wellFormed b \<Longrightarrow> findCapturedGroups b m =
     Inr (concat (map (captured b) (filter (onBoard b) (getNeighbors (Point m)))))"
  by (simp add: findCapturedGroups_def findCapturedGroups_loop_eq)

lemma findCapturedGroups_calls_eq:
  "wellFormed b \<Longrightarrow> findCapturedGroups_calls b m = filter (onBoard b) (getNeighbors (Point m))"
  by (simp add: findCapturedGroups_calls_def inBounds_wellFormed)

lemma neighborCaptures_onBoard:
  "wellFormed b \<Longrightarrow> x \<in> set (neighborCaptures b m) \<Longrightarrow> onBoard b x"
  using capturedStones_total by (auto simp: neighborCaptures_def)

lemma neighborCaptures_member:
  assumes "q \<in> set (getNeighbors (Point m))" and "onBoard b q" and "x \<in> set (captured b q)"
  shows "x \<in> set (neighborCaptures b m)"
  using assms unfolding neighborCaptures_def by auto

lemma neighborCaptures_single:
  assumes wf: "wellFormed b" and s: "neighborCaptures b m = [q]"
  shows "q \<in> set (getNeighbors (Point m))" and "onBoard b q" and "cell b q \<noteq> Empty"
    and "stoneGroup b q = {q}" and "\<not> hasLiberty b q"
proof -
  have "q \<in> set (neighborCaptures b m)" using s by simp
  then obtain n where n: "n \<in> set (getNeighbors (Point m))" "onBoard b n"
    and qn: "q \<in> set (captured b n)"
    unfolding neighborCaptures_def by auto
  have sub: "set (captured b n) \<subseteq> {q}"
  proof -
    have "set (captured b n) \<subseteq> set (neighborCaptures b m)"
      unfolding neighborCaptures_def using n by auto
    then show ?thesis using s by simp
  qed
  from captured_cases [OF wf n(2)] qn
  have c: "cell b n \<noteq> Empty" and l: "\<not> hasLiberty b n"
    and g: "set (captured b n) = stoneGroup b n"
    by auto
  have "n \<in> stoneGroup b n" by (rule stoneGroup.start)
  then have nq: "n = q" using g sub by auto
  show "q \<in> set (getNeighbors (Point m))" "onBoard b q" "cell b q \<noteq> Empty" "\<not> hasLiberty b q"
    using n c l nq by simp_all
  show "stoneGroup b q = {q}" using g sub qn nq by auto
qed

lemma count_list_distinct:
  "distinct xs \<Longrightarrow> count_list xs q = (if q \<in> set xs then 1 else 0)"
  by (induction xs) auto

lemma sum_list_indicator:
  "(\<Sum>x\<leftarrow>xs. if P x then 1 else 0) = length (filter P xs)"
  by (induction xs) auto

text \<open>How often a point of the group of \<open>n\<close> occurs in what the analyzer returns for
  \<open>n'\<close>, and in what \<^verbatim>\<open>findCapturedGroups\<close> returns.\<close>

lemma count_list_captured:
  assumes wf: "wellFormed b" and n: "onBoard b n" and c: "cell b n \<noteq> Empty"
    and q: "q \<in> stoneGroup b n" and n': "onBoard b n'"
  shows "count_list (captured b n') q =
           (if \<not> hasLiberty b n \<and> n' \<in> stoneGroup b n then 1 else 0)"
proof (cases "n' \<in> stoneGroup b n")
  case True
  then have g: "stoneGroup b n' = stoneGroup b n" and l: "hasLiberty b n' = hasLiberty b n"
    and c': "cell b n' \<noteq> Empty"
    using stoneGroup_eq [OF True n] hasLiberty_eq [OF True n] stoneGroup_cell [OF True] c
    by simp_all
  show ?thesis
    using captured_cases [OF wf n'] g l c' q True by (auto simp: count_list_distinct)
next
  case False
  have "q \<notin> set (captured b n')"
  proof
    assume in': "q \<in> set (captured b n')"
    then have "q \<in> stoneGroup b n'" using captured_cases [OF wf n'] by auto
    then have "stoneGroup b q = stoneGroup b n'" by (rule stoneGroup_eq [OF _ n'])
    moreover have "stoneGroup b q = stoneGroup b n" by (rule stoneGroup_eq [OF q n])
    ultimately show False using False stoneGroup.start [of n' b] by simp
  qed
  then show ?thesis using False by (simp add: count_notin)
qed

lemma count_list_neighborCaptures:
  assumes wf: "wellFormed b" and n: "onBoard b n" and c: "cell b n \<noteq> Empty"
    and q: "q \<in> stoneGroup b n"
  shows "count_list (neighborCaptures b m) q =
           (if hasLiberty b n then 0
            else length (filter (\<lambda>n'. n' \<in> stoneGroup b n) (getNeighbors (Point m))))"
proof -
  have "count_list (neighborCaptures b m) q =
        (\<Sum>n'\<leftarrow>filter (onBoard b) (getNeighbors (Point m)).
            if \<not> hasLiberty b n \<and> n' \<in> stoneGroup b n then 1 else 0)"
    unfolding neighborCaptures_def count_list_concat map_map comp_def
    by (intro arg_cong [where f = sum_list] map_cong refl)
       (simp add: count_list_captured [OF wf n c q])
  also have "\<dots> = length (filter (\<lambda>n'. \<not> hasLiberty b n \<and> n' \<in> stoneGroup b n)
                       (filter (onBoard b) (getNeighbors (Point m))))"
    by (rule sum_list_indicator)
  also have "\<dots> = length (filter (\<lambda>n'. \<not> hasLiberty b n \<and> n' \<in> stoneGroup b n)
                       (getNeighbors (Point m)))"
    using stoneGroup_onBoard [OF _ n]
    by (auto simp: filter_filter intro!: arg_cong [where f = length] filter_cong)
  finally show ?thesis by (cases "hasLiberty b n") simp_all
qed

text \<open>A call at an Empty point of the grid: the suicide error, the ko error, or the commit
  of the captures.\<close>

lemma PlaceStone_eq:
  assumes wf: "wellFormed b0" and on: "onBoard b0 (Point m)" and e: "cell b0 (Point m) = Empty"
  defines "b1 \<equiv> withStone (b0\<lparr>ko := None\<rparr>) m"
  defines "caps \<equiv> neighborCaptures b1 m"
  shows "PlaceStone b0 m =
    (if caps = [] \<and> captured b1 (Point m) \<noteq> [] then (b0\<lparr>ko := None\<rparr>, Inl Suicide)
     else if length caps = 1 \<and> ko b0 = Some (caps ! 0) then (b0\<lparr>ko := Some (Point m)\<rparr>, Inl IllegalKo)
     else (clearAll (b1\<lparr>ko := if length caps = 1 then Some (Point m) else None\<rparr>) caps, Inr caps))"
proof -
  have wf1: "wellFormed b1" using wf by (simp add: b1_def wellFormed_withStone)
  have on1: "onBoard b1 (Point m)" using on by (simp add: b1_def)
  have f: "findCapturedGroups b1 m = Inr caps"
    using findCapturedGroups_eq [OF wf1] by (simp add: caps_def neighborCaptures_def)
  have s: "suicidal b1 m caps = Inr (caps = [] \<and> captured b1 (Point m) \<noteq> [])"
    using capturedStones_total [OF wf1 on1] by (simp add: suicidal_def)
  have undo: "withStone b1 (NewMove Empty (Point m)) = b0\<lparr>ko := None\<rparr>"
    using on withStone_same [of "b0\<lparr>ko := None\<rparr>" "Point m"] e
    by (cases m) (simp add: b1_def withStone_twice)
  have backk: "withStone (b1\<lparr>ko := k\<rparr>) (NewMove Empty (Point m)) = b0\<lparr>ko := k\<rparr>" for k
    using undo by (simp add: withStone_ko)
  have rem: "removeCapturedStones (b1\<lparr>ko := k\<rparr>) caps = (clearAll (b1\<lparr>ko := k\<rparr>) caps, None)" for k
    using neighborCaptures_onBoard [OF wf1] wf1
    by (intro removeCapturedStones_onBoard) (auto simp: caps_def)
  have rem0: "removeCapturedStones b1 caps = (clearAll b1 caps, None)"
    using neighborCaptures_onBoard [OF wf1] wf1
    by (intro removeCapturedStones_onBoard) (auto simp: caps_def)
  have k0: "b1\<lparr>ko := None\<rparr> = b1" by (simp add: b1_def withStone_def)
  have pre: "inBounds (b0\<lparr>ko := None\<rparr>) (Point m) = Inr True"
    "colorAt (b0\<lparr>ko := None\<rparr>) (Point m) = Inr Empty"
    "setColor (b0\<lparr>ko := None\<rparr>) m = Inr b1"
    using wf on e by (simp_all add: inBounds_wellFormed colorAt_onBoard setColor_onBoard b1_def)
  have sc: "setColor b1 (NewMove Empty (Point m)) = Inr (b0\<lparr>ko := None\<rparr>)"
    "setColor (b1\<lparr>ko := Some (Point m)\<rparr>) (NewMove Empty (Point m)) = Inr (b0\<lparr>ko := Some (Point m)\<rparr>)"
    using wf1 on1 undo backk by (simp_all add: setColor_onBoard)
  show ?thesis
    unfolding PlaceStone_def Let_def pre sum.case f s sc
    by (auto simp: commitCaptures_def rem rem0 k0)
qed

lemma PlaceStone_outOfBounds:
  "wellFormed b \<Longrightarrow> \<not> onBoard b (Point m) \<Longrightarrow> PlaceStone b m = (b\<lparr>ko := None\<rparr>, Inl OutOfBounds)"
  by (simp add: PlaceStone_def inBounds_wellFormed)

lemma PlaceStone_occupied:
  "wellFormed b \<Longrightarrow> onBoard b (Point m) \<Longrightarrow> cell b (Point m) \<noteq> Empty \<Longrightarrow>
   PlaceStone b m = (b\<lparr>ko := None\<rparr>, Inl Occupied)"
  by (simp add: PlaceStone_def inBounds_wellFormed colorAt_onBoard)

lemma PlaceStone_success:
  assumes wf: "wellFormed b" and ok: "PlaceStone b m = (b', Inr caps)"
  defines "b1 \<equiv> withStone (b\<lparr>ko := None\<rparr>) m"
  shows "onBoard b (Point m)" and "cell b (Point m) = Empty"
    and "caps = neighborCaptures b1 m"
    and "b' = clearAll (b1\<lparr>ko := if length caps = 1 then Some (Point m) else None\<rparr>) caps"
proof -
  show on: "onBoard b (Point m)"
    using PlaceStone_outOfBounds [OF wf, of m] ok by auto
  show e: "cell b (Point m) = Empty"
    using PlaceStone_occupied [OF wf on] ok by auto
  show "caps = neighborCaptures b1 m"
    using PlaceStone_eq [OF wf on e] ok unfolding b1_def by (auto split: if_splits)
  then show "b' = clearAll (b1\<lparr>ko := if length caps = 1 then Some (Point m) else None\<rparr>) caps"
    using PlaceStone_eq [OF wf on e] ok unfolding b1_def by (auto split: if_splits)
qed

text \<open>The grid after a successful call: the captured points are Empty, the target holds the
  colour of the move unless it is among the captured points, and no other cell changed.\<close>

lemma PlaceStone_success_cells:
  assumes wf: "wellFormed b" and ok: "PlaceStone b m = (b', Inr caps)" and x: "onBoard b x"
  shows "cell b' x =
           (if x \<in> set caps then Empty else if x = Point m then Color m else cell b x)"
proof -
  let ?b1 = "withStone (b\<lparr>ko := None\<rparr>) m"
  note s = PlaceStone_success [OF wf ok]
  have wf1: "wellFormed ?b1" using wf by (simp add: wellFormed_withStone)
  have on: "\<forall>p \<in> set caps. onBoard ?b1 p"
    using neighborCaptures_onBoard [OF wf1] s(3) by simp
  have "cell b' x = (if x \<in> set caps then Empty else cell ?b1 x)"
    unfolding s(4) using cell_clearAll [of "?b1\<lparr>ko := k\<rparr>" caps x for k] wf1 on x by simp
  then show ?thesis
    using cell_withStone [of "b\<lparr>ko := None\<rparr>" m x] wf s(1) x by simp
qed

text \<open>The suicide that the code detects: no group of a neighbour is captured and the
  analyzer, run on the placed stone, returns stones.\<close>

lemma PlaceStone_lone_suicide:
  assumes wf: "wellFormed b" and on: "onBoard b (Point m)" and e: "cell b (Point m) = Empty"
    and s: "setColor (b\<lparr>ko := None\<rparr>) m = Inr b1"
    and none: "findCapturedGroups b1 m = Inr []"
    and own: "capturedStones b1 (Point m) = Inr stones" "stones \<noteq> []"
  shows "PlaceStone b m = (b\<lparr>ko := None\<rparr>, Inl Suicide)"
proof -
  have b1: "b1 = withStone (b\<lparr>ko := None\<rparr>) m"
    using s setColor_onBoard [of "b\<lparr>ko := None\<rparr>" m] wf on by simp
  then have wf1: "wellFormed b1" using wf by (simp add: wellFormed_withStone)
  have "neighborCaptures b1 m = []"
    using none findCapturedGroups_eq [OF wf1, of m] by (simp add: neighborCaptures_def)
  moreover have "captured b1 (Point m) \<noteq> []" using own by (simp add: captured_def)
  ultimately show ?thesis using PlaceStone_eq [OF wf on e] b1 by simp
qed

lemma PlaceStone_cases:
  assumes wf: "wellFormed b" and r: "PlaceStone b m = (b', r)"
  shows "wellFormed b' \<and> length (board b') = length (board b) \<and>
         (ko b' = None \<or> ko b' = Some (Point m) \<and> onBoard b (Point m)) \<and>
         (\<forall>e. r = Inl e \<longrightarrow> e \<in> {OutOfBounds, Occupied, Suicide, IllegalKo})"
proof (cases "onBoard b (Point m)")
  case False
  then show ?thesis using PlaceStone_outOfBounds [OF wf False] r wf by auto
next
  case True
  note on = True
  show ?thesis
  proof (cases "cell b (Point m) = Empty")
    case False
    then show ?thesis using PlaceStone_occupied [OF wf on False] r wf by auto
  next
    case True
    let ?b1 = "withStone (b\<lparr>ko := None\<rparr>) m"
    have wf1: "wellFormed (clearAll (?b1\<lparr>ko := k\<rparr>) ps)" for k ps
      using wf by (simp add: wellFormed_clearAll wellFormed_withStone)
    show ?thesis
      using PlaceStone_eq [OF wf on True] r wf on wf1
      by (auto split: if_splits)
  qed
qed

text \<open>The four neighbours are distinct points, and a point that \<^verbatim>\<open>findCapturedGroups\<close>
  returns comes from a neighbour of its own colour whose group has no liberty.\<close>

lemma distinct_getNeighbors: "distinct (getNeighbors p)"
  by (simp add: getNeighbors_def)

lemma count_list_filter_distinct:
  "distinct xs \<Longrightarrow> x \<in> set xs \<Longrightarrow> P x \<Longrightarrow> count_list (filter P xs) x = 1"
  by (simp add: count_list_distinct)

lemma neighborCaptures_opponent:
  assumes wf: "wellFormed b" and x: "x \<in> set (neighborCaptures b m)"
  shows "\<exists>n \<in> set (getNeighbors (Point m)).
           onBoard b n \<and> cell b n \<noteq> Empty \<and> cell b n = cell b x \<and> \<not> hasLiberty b n \<and>
           x \<in> stoneGroup b n"
proof -
  from x obtain n where n: "n \<in> set (getNeighbors (Point m))" "onBoard b n"
    and xn: "x \<in> set (captured b n)"
    unfolding neighborCaptures_def by auto
  from captured_cases [OF wf n(2)] xn
  have "cell b n \<noteq> Empty" "\<not> hasLiberty b n" "x \<in> stoneGroup b n" by auto
  then show ?thesis using n stoneGroup_cell [of x b n] by auto
qed

section \<open>The positions in play\<close>

text \<open>The positions arise in play from the Board that \<^verbatim>\<open>NewBoard\<close> returns.\<close>

lemma koStart_reachable:
  "NewBoard 4 = Inr empty4 \<and>
   PlaceStones empty4
     [NewMove Black (New 1 0), NewMove White (New 2 0), NewMove Black (New 0 1),
      NewMove White (New 3 1), NewMove Black (New 2 1), NewMove White (New 2 2),
      NewMove Black (New 1 2)] = koStart"
  by code_simp

lemma PlaceStone_koStart: "PlaceStone koStart (NewMove White (New 1 1)) = (koTaken, Inr [New 2 1])"
  by code_simp

lemma PlaceStone_koTaken:
  "PlaceStone koTaken (NewMove Black (New 2 1)) = (koTaken\<lparr>ko := Some (New 2 1)\<rparr>, Inl IllegalKo)"
  by code_simp

lemma wellFormed_koTaken: "wellFormed koTaken"
  by (simp add: wellFormed_def koTaken_def)

lemma suicideBoard_reachable:
  "NewBoard 3 = Inr empty3 \<and>
   PlaceStones empty3
     [NewMove Black (New 0 0), NewMove White (New 1 0), NewMove White (New 1 1),
      NewMove White (New 0 2)] = suicideBoard"
  by code_simp

lemma snapBoard_reachable:
  "PlaceStones empty4
     [NewMove Black (New 0 0), NewMove White (New 2 0), NewMove White (New 0 1),
      NewMove White (New 1 1), NewMove Black (New 2 1), NewMove Black (New 0 2),
      NewMove Black (New 1 2)] = snapBoard"
  by code_simp

lemma crossBoard_reachable:
  "PlaceStones empty3
     [NewMove White (New 1 1), NewMove Black (New 0 1), NewMove Black (New 1 0),
      NewMove Black (New 1 2)] = crossBoard"
  by code_simp

lemma elbowBoard_reachable:
  "PlaceStones empty3
     [NewMove White (New 0 0), NewMove White (New 1 0), NewMove White (New 0 1),
      NewMove Black (New 2 0), NewMove Black (New 0 2)] = elbowBoard"
  by code_simp

lemma PlaceStone_elbowBoard:
  "PlaceStone elbowBoard (NewMove Black (New 1 1)) =
     (\<lparr>board = [[Empty, Empty, Black],
                [Empty, Black, Empty],
                [Black, Empty, Empty]], ko = None\<rparr>,
      Inr [New 0 1, New 0 0, New 1 0, New 1 0, New 0 0, New 0 1])"
  by code_simp

lemma capturedStones_cornerBoard_corner: "capturedStones cornerBoard (New 0 0) = Inr [New 0 0, New 1 0]"
  by (simp add: cornerBoard_def capturedStones_def inBounds_def colorAt_def getNeighbors_def)

lemma capturedStones_cornerBoard_edge: "capturedStones cornerBoard (New 2 0) = Inr []"
  by (simp add: cornerBoard_def capturedStones_def inBounds_def colorAt_def getNeighbors_def)

section \<open>Claim C1: the analyzer\<close>

text \<open>
  Claim C1. On a well-formed Board, \<^verbatim>\<open>capturedStones\<close> run on a point of the grid that
  holds a stone returns without panic; it returns no stones (the empty result) when the
  group of the point has a liberty, and otherwise the whole group of the point, every point
  of it once. No point it returns belongs to a group with a liberty. A liberty is an Empty
  point of the grid: a neighbour outside the grid is none.
\<close>

theorem capturedStones_correct:
  assumes wf: "wellFormed b" and on: "onBoard b pt" and c: "cell b pt \<noteq> Empty"
  shows "\<exists>xs. capturedStones b pt = Inr xs \<and>
           (if hasLiberty b pt then xs = []
            else xs \<noteq> [] \<and> distinct xs \<and> set xs = stoneGroup b pt) \<and>
           (\<forall>q \<in> set xs. \<not> hasLiberty b q)"
proof (cases "hasLiberty b pt")
  case True
  then show ?thesis using capturedStones_post [OF assms] by (simp add: loopPost_def)
next
  case False
  then obtain xs where xs: "capturedStones b pt = Inr xs" "distinct xs" "set xs = stoneGroup b pt"
    using capturedStones_post [OF assms] by (auto simp: loopPost_def)
  have "pt \<in> set xs" using xs(3) by (simp add: stoneGroup.start)
  then have "xs \<noteq> []" by auto
  moreover have "\<forall>q \<in> set xs. \<not> hasLiberty b q"
    using hasLiberty_eq [OF _ on] xs(3) False by simp
  ultimately show ?thesis using xs False by simp
qed

theorem capturedStones_correct_witness:
  "wellFormed cornerBoard \<and> onBoard cornerBoard (New 0 0) \<and> cell cornerBoard (New 0 0) \<noteq> Empty \<and>
   capturedStones cornerBoard (New 0 0) = Inr [New 0 0, New 1 0] \<and>
   \<not> hasLiberty cornerBoard (New 0 0) \<and>
   stoneGroup cornerBoard (New 0 0) = {New 0 0, New 1 0} \<and>
   capturedStones cornerBoard (New 2 0) = Inr [] \<and> hasLiberty cornerBoard (New 2 0)"
proof -
  have wf: "wellFormed cornerBoard" by (simp add: wellFormed_def cornerBoard_def)
  have on1: "onBoard cornerBoard (New 0 0)" and on2: "onBoard cornerBoard (New 2 0)"
    by (simp_all add: onBoard_def cornerBoard_def)
  have c1: "cell cornerBoard (New 0 0) \<noteq> Empty" and c2: "cell cornerBoard (New 2 0) \<noteq> Empty"
    by (simp_all add: cell_def cornerBoard_def)
  have "\<not> hasLiberty cornerBoard (New 0 0) \<and> stoneGroup cornerBoard (New 0 0) = {New 0 0, New 1 0}"
    using capturedStones_correct [OF wf on1 c1] capturedStones_cornerBoard_corner by (auto split: if_splits)
  moreover have "hasLiberty cornerBoard (New 2 0)"
    using capturedStones_correct [OF wf on2 c2] capturedStones_cornerBoard_edge by (auto split: if_splits)
  ultimately show ?thesis using wf on1 c1 capturedStones_cornerBoard_corner capturedStones_cornerBoard_edge by simp
qed

section \<open>Claim C2: the rejected ko recapture\<close>

text \<open>
  Claim C2, as amended. On a well-formed Board whose ko point is set and is the single
  stone that the move, made at an Empty point of the grid, captures, \<^verbatim>\<open>PlaceStone\<close>
  fails with the ko error and leaves the grid as it was before the call; the ko field is
  neither cleared nor restored: it ends holding the point of the rejected move.
\<close>

theorem PlaceStone_ko_rejected:
  assumes wf: "wellFormed b" and on: "onBoard b (Point m)" and e: "cell b (Point m) = Empty"
    and k: "ko b = Some k"
    and s: "setColor (b\<lparr>ko := None\<rparr>) m = Inr b1"
    and f: "findCapturedGroups b1 m = Inr [k]"
  shows "PlaceStone b m = (b\<lparr>ko := Some (Point m)\<rparr>, Inl IllegalKo)"
proof -
  have b1: "b1 = withStone (b\<lparr>ko := None\<rparr>) m"
    using s setColor_onBoard [of "b\<lparr>ko := None\<rparr>" m] wf on by simp
  then have "wellFormed b1" using wf by (simp add: wellFormed_withStone)
  then have "neighborCaptures (withStone (b\<lparr>ko := None\<rparr>) m) m = [k]"
    using f findCapturedGroups_eq [of b1 m] b1 by (simp add: neighborCaptures_def)
  then show ?thesis
    using PlaceStone_eq [OF wf on e] k by simp
qed

theorem PlaceStone_ko_rejected_witness:
  "wellFormed koTaken \<and> onBoard koTaken (New 2 1) \<and> cell koTaken (New 2 1) = Empty \<and>
   ko koTaken = Some (New 1 1) \<and>
   setColor (koTaken\<lparr>ko := None\<rparr>) (NewMove Black (New 2 1)) =
     Inr (withStone (koTaken\<lparr>ko := None\<rparr>) (NewMove Black (New 2 1))) \<and>
   findCapturedGroups (withStone (koTaken\<lparr>ko := None\<rparr>) (NewMove Black (New 2 1)))
     (NewMove Black (New 2 1)) = Inr [New 1 1] \<and>
   PlaceStone koTaken (NewMove Black (New 2 1)) = (koTaken\<lparr>ko := Some (New 2 1)\<rparr>, Inl IllegalKo)"
proof -
  have on: "onBoard koTaken (Point (NewMove Black (New 2 1)))"
    and e: "cell koTaken (Point (NewMove Black (New 2 1))) = Empty"
    and k: "ko koTaken = Some (New 1 1)"
    by (simp_all add: onBoard_def cell_def koTaken_def)
  have s: "setColor (koTaken\<lparr>ko := None\<rparr>) (NewMove Black (New 2 1)) =
     Inr (withStone (koTaken\<lparr>ko := None\<rparr>) (NewMove Black (New 2 1)))"
    by code_simp
  have f: "findCapturedGroups (withStone (koTaken\<lparr>ko := None\<rparr>) (NewMove Black (New 2 1)))
     (NewMove Black (New 2 1)) = Inr [New 1 1]"
    by code_simp
  show ?thesis
    using PlaceStone_ko_rejected [OF wellFormed_koTaken on e k s f] wellFormed_koTaken on e k s f
    by simp
qed

text \<open>The claim as stated fails: after the rejected recapture the ko field is set, to a
  point other than the one it held, so the Board is not as it was and ko is not cleared.\<close>

theorem PlaceStone_ko_rejected_counterexample:
  "ko koTaken = Some (New 1 1) \<and>
   findCapturedGroups (withStone (koTaken\<lparr>ko := None\<rparr>) (NewMove Black (New 2 1)))
     (NewMove Black (New 2 1)) = Inr [New 1 1] \<and>
   snd (PlaceStone koTaken (NewMove Black (New 2 1))) = Inl IllegalKo \<and>
   fst (PlaceStone koTaken (NewMove Black (New 2 1))) \<noteq> koTaken \<and>
   ko (fst (PlaceStone koTaken (NewMove Black (New 2 1)))) = Some (New 2 1)"
  by code_simp

section \<open>Claim C3: a move out of bounds or on a stone\<close>

text \<open>
  Claim C3, as amended. On a well-formed Board, a move whose point is outside the grid is
  rejected with the bounds error, and a move onto a point that holds a stone with the
  occupied error; in both cases the grid is as before the call and the ko field ends
  unset, whatever it held before the call.
\<close>

theorem PlaceStone_rejected:
  assumes "wellFormed b"
  shows "(\<not> onBoard b (Point m) \<longrightarrow> PlaceStone b m = (b\<lparr>ko := None\<rparr>, Inl OutOfBounds)) \<and>
         (onBoard b (Point m) \<and> cell b (Point m) \<noteq> Empty \<longrightarrow>
            PlaceStone b m = (b\<lparr>ko := None\<rparr>, Inl Occupied))"
  using assms by (simp add: PlaceStone_outOfBounds PlaceStone_occupied)

theorem PlaceStone_rejected_witness:
  "wellFormed koTaken \<and> \<not> onBoard koTaken (New 4 1) \<and>
   PlaceStone koTaken (NewMove Black (New 4 1)) = (koTaken\<lparr>ko := None\<rparr>, Inl OutOfBounds) \<and>
   onBoard koTaken (New 1 1) \<and> cell koTaken (New 1 1) \<noteq> Empty \<and>
   PlaceStone koTaken (NewMove White (New 1 1)) = (koTaken\<lparr>ko := None\<rparr>, Inl Occupied)"
proof -
  have a: "\<not> onBoard koTaken (New 4 1)" and b: "onBoard koTaken (New 1 1)"
    and c: "cell koTaken (New 1 1) \<noteq> Empty"
    by (simp_all add: onBoard_def cell_def koTaken_def)
  show ?thesis
    using PlaceStone_rejected [OF wellFormed_koTaken, of "NewMove Black (New 4 1)"]
      PlaceStone_rejected [OF wellFormed_koTaken, of "NewMove White (New 1 1)"]
      wellFormed_koTaken a b c
    by simp
qed

text \<open>The claim as stated fails where the ko field is set before the call: the rejected
  call clears it, so the Board is not what it was.\<close>

theorem PlaceStone_rejected_counterexample:
  "snd (PlaceStone koTaken (NewMove Black (New 4 1))) = Inl OutOfBounds \<and>
   fst (PlaceStone koTaken (NewMove Black (New 4 1))) \<noteq> koTaken \<and>
   snd (PlaceStone koTaken (NewMove White (New 1 1))) = Inl Occupied \<and>
   fst (PlaceStone koTaken (NewMove White (New 1 1))) \<noteq> koTaken"
  by code_simp

section \<open>Claim C4: suicide of a group\<close>

text \<open>
  Claim C4 fails on the code. Black playing at (0,1) captures no white stone and leaves the
  black group of (0,0) and (0,1) without a liberty. \<^verbatim>\<open>findCapturedGroups\<close> runs the
  analyzer on the black neighbour (0,0) as on any other and takes the group of the mover
  for captured, so the captured list is not empty, the suicide test of line 51 does not
  apply, and the call succeeds, removing both black stones.
\<close>

theorem PlaceStone_group_suicide:
  "PlaceStone suicideBoard (NewMove Black (New 0 1)) =
     (\<lparr>board = [[Empty, White, Empty],
                [Empty, White, Empty],
                [White, Empty, Empty]], ko = None\<rparr>, Inr [New 0 0, New 0 1])"
  by code_simp

text \<open>What the analyzer returns for the neighbours of the placed stone, and for the placed
  stone itself.\<close>

lemma suicideBoard_facts:
  "findCapturedGroups_calls (withStone suicideBoard (NewMove Black (New 0 1))) (NewMove Black (New 0 1))
     = [New 1 1, New 0 2, New 0 0] \<and>
   captured (withStone suicideBoard (NewMove Black (New 0 1))) (New 1 1) = [] \<and>
   captured (withStone suicideBoard (NewMove Black (New 0 1))) (New 0 2) = [] \<and>
   captured (withStone suicideBoard (NewMove Black (New 0 1))) (New 0 0) = [New 0 0, New 0 1] \<and>
   captured (withStone suicideBoard (NewMove Black (New 0 1))) (New 0 1) = [New 0 1, New 0 0]"
  by code_simp

section \<open>Claim C5: the collection of captured points\<close>

text \<open>
  Claim C5, as amended. After a successful call of \<^verbatim>\<open>PlaceStone\<close> on a well-formed Board,
  with the stone placed: \<^verbatim>\<open>findCapturedGroups\<close> invokes the analyzer exactly once on every
  neighbour of the placed point that is in bounds and holds an opponent stone, so at most
  4 times on opponent stones. A point of the group of such a neighbour does not occur in
  the returned collection when that group has a liberty, and otherwise occurs once for
  every neighbour of the placed point that belongs to the group: more than once when the
  group touches the placed point from two sides. Every returned point that is not of the
  colour of the move belongs to the group, without liberty, of such a neighbour.
\<close>

theorem PlaceStone_captured_collection:
  assumes wf: "wellFormed b" and ok: "PlaceStone b m = (b', Inr caps)"
  shows "\<exists>b1. setColor (b\<lparr>ko := None\<rparr>) m = Inr b1 \<and>
           (\<forall>n \<in> set (getNeighbors (Point m)).
              onBoard b1 n \<and> cell b1 n \<noteq> Empty \<and> cell b1 n \<noteq> Color m \<longrightarrow>
              count_list (findCapturedGroups_calls b1 m) n = 1 \<and>
              (\<forall>q \<in> stoneGroup b1 n. count_list caps q =
                 (if hasLiberty b1 n then 0
                  else length (filter (\<lambda>n'. n' \<in> stoneGroup b1 n) (getNeighbors (Point m)))))) \<and>
           (\<forall>x \<in> set caps. cell b1 x \<noteq> Color m \<longrightarrow>
              (\<exists>n \<in> set (getNeighbors (Point m)).
                 onBoard b1 n \<and> cell b1 n \<noteq> Empty \<and> cell b1 n \<noteq> Color m \<and>
                 \<not> hasLiberty b1 n \<and> x \<in> stoneGroup b1 n)) \<and>
           length (filter (\<lambda>n. cell b1 n \<noteq> Empty \<and> cell b1 n \<noteq> Color m)
                     (findCapturedGroups_calls b1 m)) \<le> 4"
proof -
  let ?b1 = "withStone (b\<lparr>ko := None\<rparr>) m"
  let ?calls = "findCapturedGroups_calls ?b1 m"
  note s = PlaceStone_success [OF wf ok]
  have wf1: "wellFormed ?b1" using wf by (simp add: wellFormed_withStone)
  have set: "setColor (b\<lparr>ko := None\<rparr>) m = Inr ?b1"
    using setColor_onBoard [of "b\<lparr>ko := None\<rparr>" m] wf s(1) by simp
  have calls: "?calls = filter (onBoard ?b1) (getNeighbors (Point m))"
    by (rule findCapturedGroups_calls_eq [OF wf1])
  have once: "count_list ?calls n = 1"
    if "n \<in> set (getNeighbors (Point m))" "onBoard ?b1 n" for n
    unfolding calls using that distinct_getNeighbors
    by (intro count_list_filter_distinct)
  have cnt: "count_list caps q =
      (if hasLiberty ?b1 n then 0
       else length (filter (\<lambda>n'. n' \<in> stoneGroup ?b1 n) (getNeighbors (Point m))))"
    if "onBoard ?b1 n" "cell ?b1 n \<noteq> Empty" "q \<in> stoneGroup ?b1 n" for n q
    using count_list_neighborCaptures [OF wf1 that] s(3) by simp
  have opp: "\<exists>n \<in> set (getNeighbors (Point m)).
                 onBoard ?b1 n \<and> cell ?b1 n \<noteq> Empty \<and> cell ?b1 n \<noteq> Color m \<and>
                 \<not> hasLiberty ?b1 n \<and> x \<in> stoneGroup ?b1 n"
    if "x \<in> set caps" "cell ?b1 x \<noteq> Color m" for x
  proof -
    from that(1) have "x \<in> set (neighborCaptures ?b1 m)" using s(3) by simp
    from neighborCaptures_opponent [OF wf1 this] that(2) show ?thesis by auto
  qed
  have "length (filter (\<lambda>n. cell ?b1 n \<noteq> Empty \<and> cell ?b1 n \<noteq> Color m) ?calls) \<le> length ?calls"
    by (rule length_filter_le)
  also have "\<dots> \<le> length (getNeighbors (Point m))"
    unfolding calls by (rule length_filter_le)
  also have "\<dots> = 4" by (simp add: getNeighbors_def)
  finally have four: "length (filter (\<lambda>n. cell ?b1 n \<noteq> Empty \<and> cell ?b1 n \<noteq> Color m) ?calls) \<le> 4" .
  show ?thesis
  proof (intro exI [of _ ?b1] conjI ballI impI)
    show "setColor (b\<lparr>ko := None\<rparr>) m = Inr ?b1" by (rule set)
  next
    fix n assume "n \<in> set (getNeighbors (Point m))"
      and "onBoard ?b1 n \<and> cell ?b1 n \<noteq> Empty \<and> cell ?b1 n \<noteq> Color m"
    then show "count_list ?calls n = 1" using once by simp
  next
    fix n q assume "onBoard ?b1 n \<and> cell ?b1 n \<noteq> Empty \<and> cell ?b1 n \<noteq> Color m"
      and "q \<in> stoneGroup ?b1 n"
    then show "count_list caps q =
      (if hasLiberty ?b1 n then 0
       else length (filter (\<lambda>n'. n' \<in> stoneGroup ?b1 n) (getNeighbors (Point m))))"
      using cnt by simp
  next
    fix x assume "x \<in> set caps" "cell ?b1 x \<noteq> Color m"
    then show "\<exists>n \<in> set (getNeighbors (Point m)).
                 onBoard ?b1 n \<and> cell ?b1 n \<noteq> Empty \<and> cell ?b1 n \<noteq> Color m \<and>
                 \<not> hasLiberty ?b1 n \<and> x \<in> stoneGroup ?b1 n"
      by (rule opp)
  next
    show "length (filter (\<lambda>n. cell ?b1 n \<noteq> Empty \<and> cell ?b1 n \<noteq> Color m) ?calls) \<le> 4"
      by (rule four)
  qed
qed

text \<open>The claim as stated fails: the analyzer runs once on the neighbour (0,1) and once on
  the neighbour (1,0), which belong to one white group, returns the group both times, and
  every captured point is returned twice.\<close>

theorem PlaceStone_captured_collection_counterexample:
  "snd (PlaceStone elbowBoard (NewMove Black (New 1 1))) =
     Inr [New 0 1, New 0 0, New 1 0, New 1 0, New 0 0, New 0 1] \<and>
   \<not> distinct [New 0 1, New 0 0, New 1 0, New 1 0, New 0 0, New 0 1] \<and>
   count_list (findCapturedGroups_calls (withStone elbowBoard (NewMove Black (New 1 1)))
     (NewMove Black (New 1 1))) (New 0 1) = 1 \<and>
   count_list (findCapturedGroups_calls (withStone elbowBoard (NewMove Black (New 1 1)))
     (NewMove Black (New 1 1))) (New 1 0) = 1 \<and>
   capturedStones (withStone elbowBoard (NewMove Black (New 1 1))) (New 0 1) =
     Inr [New 0 1, New 0 0, New 1 0] \<and>
   capturedStones (withStone elbowBoard (NewMove Black (New 1 1))) (New 1 0) =
     Inr [New 1 0, New 0 0, New 0 1]"
  by code_simp

theorem PlaceStone_captured_collection_witness:
  "wellFormed elbowBoard \<and>
   PlaceStone elbowBoard (NewMove Black (New 1 1)) =
     (\<lparr>board = [[Empty, Empty, Black],
                [Empty, Black, Empty],
                [Black, Empty, Empty]], ko = None\<rparr>,
      Inr [New 0 1, New 0 0, New 1 0, New 1 0, New 0 0, New 0 1]) \<and>
   \<not> hasLiberty (withStone elbowBoard (NewMove Black (New 1 1))) (New 0 1) \<and>
   length (filter (\<lambda>n'. n' \<in> stoneGroup (withStone elbowBoard (NewMove Black (New 1 1))) (New 0 1))
     (getNeighbors (New 1 1))) = 2 \<and>
   count_list (findCapturedGroups_calls (withStone elbowBoard (NewMove Black (New 1 1)))
     (NewMove Black (New 1 1))) (New 0 1) = 1"
proof -
  let ?m = "NewMove Black (New 1 1)"
  let ?b1 = "withStone elbowBoard ?m"
  let ?caps = "[New 0 1, New 0 0, New 1 0, New 1 0, New 0 0, New 0 1]"
  have wf: "wellFormed elbowBoard" by (simp add: wellFormed_def elbowBoard_def)
  note ok = PlaceStone_elbowBoard
  have s: "setColor (elbowBoard\<lparr>ko := None\<rparr>) ?m = Inr ?b1" by code_simp
  have n: "New 0 1 \<in> set (getNeighbors (Point ?m))" by (simp add: getNeighbors_def)
  have on: "onBoard ?b1 (New 0 1)" by (simp add: onBoard_def elbowBoard_def)
  have c: "cell ?b1 (New 0 1) \<noteq> Empty" "cell ?b1 (New 0 1) \<noteq> Color ?m"
    by (simp_all add: cell_def withStone_def elbowBoard_def)
  have cnt: "count_list ?caps (New 0 1) = 2" by simp
  from PlaceStone_captured_collection [OF wf ok]
  obtain b1 where b1: "setColor (elbowBoard\<lparr>ko := None\<rparr>) ?m = Inr b1"
    and A0: "\<forall>n \<in> set (getNeighbors (Point ?m)).
          onBoard b1 n \<and> cell b1 n \<noteq> Empty \<and> cell b1 n \<noteq> Color ?m \<longrightarrow>
          count_list (findCapturedGroups_calls b1 ?m) n = 1 \<and>
          (\<forall>q \<in> stoneGroup b1 n. count_list ?caps q =
             (if hasLiberty b1 n then 0
              else length (filter (\<lambda>n'. n' \<in> stoneGroup b1 n) (getNeighbors (Point ?m)))))"
    by blast
  have eq: "b1 = ?b1" using b1 unfolding s by (rule Inr_inject [THEN sym])
  note A = A0 [unfolded eq, rule_format, OF n conjI [OF on conjI [OF c]]]
  have once: "count_list (findCapturedGroups_calls ?b1 ?m) (New 0 1) = 1"
    by (rule A [THEN conjunct1])
  have "count_list ?caps (New 0 1) =
             (if hasLiberty ?b1 (New 0 1) then 0
              else length (filter (\<lambda>n'. n' \<in> stoneGroup ?b1 (New 0 1)) (getNeighbors (Point ?m))))"
    by (rule A [THEN conjunct2, rule_format, OF stoneGroup.start])
  then have "\<not> hasLiberty ?b1 (New 0 1) \<and>
     length (filter (\<lambda>n'. n' \<in> stoneGroup ?b1 (New 0 1)) (getNeighbors (New 1 1))) = 2"
    using cnt by (auto split: if_splits)
  then show ?thesis using wf ok once by simp
qed

section \<open>Claim C6: the Board after a successful call\<close>

text \<open>
  Claim C6 fails on the code. The call succeeds, but the analyzer, run on the black
  neighbour (0,0) before the white stones are removed, returns the group of the placed
  stone as captured: at return the target cell (1,0) and the cell (0,0) are Empty, and the
  two black stones are returned among the captured points with the two white ones.
\<close>

theorem PlaceStone_removes_placed_stone:
  "PlaceStone snapBoard (NewMove Black (New 1 0)) =
     (\<lparr>board = [[Empty, Empty, White, Empty],
                [Empty, Empty, Black, Empty],
                [Black, Black, Empty, Empty],
                [Empty, Empty, Empty, Empty]], ko = None\<rparr>,
      Inr [New 0 0, New 1 0, New 1 1, New 0 1])"
  by code_simp

text \<open>The scenario of the claim holds: Black playing at (2,1) captures the white stone at
  (1,1) and leaves (1,1) Empty.\<close>

lemma PlaceStone_capture_scenario:
  "PlaceStone crossBoard (NewMove Black (New 2 1)) =
     (\<lparr>board = [[Empty, Black, Empty],
                [Black, Empty, Black],
                [Empty, Black, Empty]], ko = Some (New 2 1)\<rparr>, Inr [New 1 1])"
  by code_simp

section \<open>Claim C7: the ko restriction lasts one attempt\<close>

text \<open>
  Claim C7. On a well-formed Board, let a move of White at \<open>q\<close> capture exactly one stone,
  at \<open>p\<close>, and let Black's replay at \<open>p\<close> capture exactly the stone at \<open>q\<close>. Then that
  replay, made at once, fails with the ko error and leaves the grid as White's move left
  it. If Black first makes another move elsewhere that succeeds and captures nothing, ko
  is unset after it and the replay at \<open>p\<close> then succeeds and captures the stone at \<open>q\<close>.
  After any call, ko is unset or the point of that call: what ko held before is gone.
\<close>

theorem ko_lasts_one_attempt:
  assumes wf: "wellFormed b0"
    and white: "PlaceStone b0 (NewMove White q) = (b1, Inr [p])"
    and replay: "setColor (b1\<lparr>ko := None\<rparr>) (NewMove Black p) = Inr b1'"
                "findCapturedGroups b1' (NewMove Black p) = Inr [q]"
  shows "(\<exists>b'. PlaceStone b1 (NewMove Black p) = (b', Inl IllegalKo) \<and> board b' = board b1) \<and>
         (\<forall>r b2. r \<noteq> p \<and> PlaceStone b1 (NewMove Black r) = (b2, Inr []) \<longrightarrow>
            ko b2 = None \<and>
            (\<exists>b3 caps. PlaceStone b2 (NewMove Black p) = (b3, Inr caps) \<and> q \<in> set caps)) \<and>
         (\<forall>m. ko (fst (PlaceStone b1 m)) = None \<or> ko (fst (PlaceStone b1 m)) = Some (Point m))"
proof (intro conjI allI impI)
  let ?wm = "NewMove White q" and ?bm = "NewMove Black p"
  let ?B0 = "withStone (b0\<lparr>ko := None\<rparr>) ?wm"
  note w = PlaceStone_success [OF wf white]
  have wfB0: "wellFormed ?B0" using wf by (simp add: wellFormed_withStone)
  have b1: "b1 = clearAll (?B0\<lparr>ko := Some q\<rparr>) [p]" using w(4) by simp
  have wf1: "wellFormed b1" unfolding b1 using wfB0 by (simp add: wellFormed_clearAll)
  have ko1: "ko b1 = Some q" unfolding b1 by simp
  have "p \<in> set (neighborCaptures ?B0 ?wm)" using w(3) [symmetric] by simp
  then have onp0: "onBoard ?B0 p" by (rule neighborCaptures_onBoard [OF wfB0])
  then have onp: "onBoard b1 (Point ?bm)" unfolding b1 by simp
  have ep: "cell b1 (Point ?bm) = Empty"
    unfolding b1 using cell_clearAll [of "?B0\<lparr>ko := Some q\<rparr>" "[p]" p] wfB0 onp0 by simp
  let ?B1 = "withStone (b1\<lparr>ko := None\<rparr>) ?bm"
  have wfB1: "wellFormed ?B1" using wf1 by (simp add: wellFormed_withStone)
  have b1': "b1' = ?B1"
    using replay(1) setColor_onBoard [of "b1\<lparr>ko := None\<rparr>" ?bm] wf1 onp by simp
  have caps1: "neighborCaptures ?B1 ?bm = [q]"
    using replay(2) findCapturedGroups_eq [OF wfB1, of ?bm] unfolding b1'
    by (simp add: neighborCaptures_def)
  have "PlaceStone b1 ?bm = (b1\<lparr>ko := Some p\<rparr>, Inl IllegalKo)"
    using PlaceStone_eq [OF wf1 onp ep] caps1 ko1 by simp
  then show "\<exists>b'. PlaceStone b1 ?bm = (b', Inl IllegalKo) \<and> board b' = board b1"
    by simp
  note lone = neighborCaptures_single [OF wfB1 caps1]
  have qp: "q \<noteq> p" using lone(1) getNeighbors_irrefl [of p] by auto
  have cellB1: "cell ?B1 x = (if x = p then Black else cell b1 x)" if "onBoard b1 x" for x
    using cell_withStone [of "b1\<lparr>ko := None\<rparr>" ?bm x] wf1 onp that by simp
  have onq: "onBoard b1 q" using lone(2) by simp
  have cq: "cell b1 q \<noteq> Empty" using lone(3) cellB1 [OF onq] qp by simp
  {
    fix r b2
    assume a: "r \<noteq> p \<and> PlaceStone b1 (NewMove Black r) = (b2, Inr [])"
    let ?rm = "NewMove Black r"
    note e = PlaceStone_success [OF wf1 a [THEN conjunct2]]
    have b2: "b2 = (withStone (b1\<lparr>ko := None\<rparr>) ?rm)\<lparr>ko := None\<rparr>" using e(4) by simp
    show "ko b2 = None" unfolding b2 by simp
    have wf2: "wellFormed b2" unfolding b2 using wf1 by (simp add: wellFormed_withStone)
    have on2: "onBoard b2 x = onBoard b1 x" for x unfolding b2 by simp
    have onr: "onBoard b1 r" and er: "cell b1 r = Empty" using e(1,2) by simp_all
    have cell2: "cell b2 x = (if x = r then Black else cell b1 x)" if "onBoard b1 x" for x
      unfolding b2 using cell_withStone [of "b1\<lparr>ko := None\<rparr>" ?rm x] wf1 onr that by simp
    have onp2: "onBoard b2 (Point ?bm)" using onp on2 by simp
    have rp: "p \<noteq> r" using a by auto
    have ep2: "cell b2 (Point ?bm) = Empty" using cell2 [of p] onp ep rp by simp
    let ?B2 = "withStone (b2\<lparr>ko := None\<rparr>) ?bm"
    have wfB2: "wellFormed ?B2" using wf2 by (simp add: wellFormed_withStone)
    have cellB2: "cell ?B2 x = (if x = p then Black else if x = r then Black else cell b1 x)"
      if "onBoard b1 x" for x
      using cell_withStone [of "b2\<lparr>ko := None\<rparr>" ?bm x] wf2 onp2 that on2 cell2 [OF that]
      by simp
    have qr: "q \<noteq> r" using cq er by auto
    have cqq: "cell ?B2 q = cell ?B1 q" using cellB2 [OF onq] cellB1 [OF onq] qp qr by simp
    have nbs: "\<forall>n \<in> set (getNeighbors q). onBoard ?B2 n \<longrightarrow>
                 cell ?B2 n \<noteq> Empty \<and> cell ?B2 n \<noteq> cell ?B2 q"
    proof (intro ballI impI)
      fix n assume n: "n \<in> set (getNeighbors q)" and "onBoard ?B2 n"
      then have on: "onBoard b1 n" using on2 by simp
      then have on1: "onBoard ?B1 n" by simp
      note d = lone_stoneD [OF lone(4) lone(5) n on1]
      have "n \<noteq> r \<or> n = p" using d er cellB1 [OF on] by (auto split: if_splits)
      then have "cell ?B2 n = cell ?B1 n" using cellB2 [OF on] cellB1 [OF on] by auto
      then show "cell ?B2 n \<noteq> Empty \<and> cell ?B2 n \<noteq> cell ?B2 q" using d cqq by simp
    qed
    have onq2: "onBoard ?B2 q" using onq on2 by simp
    have "cell ?B2 q \<noteq> Empty" using cqq lone(3) by simp
    then have "set (captured ?B2 q) = stoneGroup ?B2 q"
      using captured_cases [OF wfB2 onq2] lone_stoneI(2) [OF nbs] by auto
    then have "q \<in> set (captured ?B2 q)" using stoneGroup.start [of q ?B2] by simp
    then have qin: "q \<in> set (neighborCaptures ?B2 ?bm)"
      using neighborCaptures_member [of q ?bm ?B2 q] lone(1) onq2 by simp
    then have ne: "neighborCaptures ?B2 ?bm \<noteq> []" by auto
    have "ko b2 = None" unfolding b2 by simp
    then have "PlaceStone b2 ?bm =
        (clearAll (?B2\<lparr>ko := if length (neighborCaptures ?B2 ?bm) = 1 then Some (Point ?bm) else None\<rparr>)
           (neighborCaptures ?B2 ?bm), Inr (neighborCaptures ?B2 ?bm))"
      using PlaceStone_eq [OF wf2 onp2 ep2] ne by simp
    then show "\<exists>b3 caps. PlaceStone b2 ?bm = (b3, Inr caps) \<and> q \<in> set caps"
      using qin by blast
  }
  fix m
  obtain b' r where r: "PlaceStone b1 m = (b', r)" by (cases "PlaceStone b1 m")
  show "ko (fst (PlaceStone b1 m)) = None \<or> ko (fst (PlaceStone b1 m)) = Some (Point m)"
    using PlaceStone_cases [OF wf1 r] r by auto
qed

theorem ko_lasts_one_attempt_witness:
  "wellFormed koStart \<and>
   PlaceStone koStart (NewMove White (New 1 1)) = (koTaken, Inr [New 2 1]) \<and>
   setColor (koTaken\<lparr>ko := None\<rparr>) (NewMove Black (New 2 1)) =
     Inr (withStone (koTaken\<lparr>ko := None\<rparr>) (NewMove Black (New 2 1))) \<and>
   findCapturedGroups (withStone (koTaken\<lparr>ko := None\<rparr>) (NewMove Black (New 2 1)))
     (NewMove Black (New 2 1)) = Inr [New 1 1] \<and>
   snd (PlaceStone koTaken (NewMove Black (New 2 1))) = Inl IllegalKo \<and>
   board (fst (PlaceStone koTaken (NewMove Black (New 2 1)))) = board koTaken \<and>
   New 3 3 \<noteq> New 2 1 \<and>
   PlaceStone koTaken (NewMove Black (New 3 3)) = (koElsewhere, Inr []) \<and>
   ko koElsewhere = None \<and>
   PlaceStone koElsewhere (NewMove Black (New 2 1)) = (koRetaken, Inr [New 1 1])"
proof -
  have wf: "wellFormed koStart" by (simp add: wellFormed_def koStart_def)
  have s: "setColor (koTaken\<lparr>ko := None\<rparr>) (NewMove Black (New 2 1)) =
     Inr (withStone (koTaken\<lparr>ko := None\<rparr>) (NewMove Black (New 2 1)))"
    by code_simp
  have f: "findCapturedGroups (withStone (koTaken\<lparr>ko := None\<rparr>) (NewMove Black (New 2 1)))
     (NewMove Black (New 2 1)) = Inr [New 1 1]"
    by code_simp
  have e: "PlaceStone koTaken (NewMove Black (New 3 3)) = (koElsewhere, Inr [])"
    by code_simp
  have r: "PlaceStone koElsewhere (NewMove Black (New 2 1)) = (koRetaken, Inr [New 1 1])"
    by code_simp
  note t = ko_lasts_one_attempt [OF wf PlaceStone_koStart s f]
  from t [THEN conjunct1]
  have k: "snd (PlaceStone koTaken (NewMove Black (New 2 1))) = Inl IllegalKo \<and>
           board (fst (PlaceStone koTaken (NewMove Black (New 2 1)))) = board koTaken"
    by auto
  have "(New 3 3 :: Point) \<noteq> New 2 1" by simp
  with t [THEN conjunct2, THEN conjunct1, rule_format, of "New 3 3" koElsewhere] e
  have "ko koElsewhere = None" by blast
  then show ?thesis using wf PlaceStone_koStart s f k e r by simp
qed

section \<open>Claim C8: the invariant of the Board\<close>

lemma boardInv_wellFormed: "0 < n \<Longrightarrow> boardInv n b \<Longrightarrow> wellFormed b"
  by (auto simp: boardInv_def wellFormed_def)

lemma boardInv_PlaceStone:
  assumes n: "0 < n" and inv: "boardInv n b"
  shows "boardInv n (fst (PlaceStone b m))"
proof -
  obtain b' r where r: "PlaceStone b m = (b', r)" by (cases "PlaceStone b m")
  have wf: "wellFormed b" using boardInv_wellFormed [OF n inv] .
  from PlaceStone_cases [OF wf r]
  have wf': "wellFormed b'" and len: "length (board b') = length (board b)"
    and k: "ko b' = None \<or> ko b' = Some (Point m) \<and> onBoard b (Point m)"
    by simp_all
  have "onBoard b' p = onBoard b p" for p by (simp add: onBoard_def len)
  then have "\<forall>p. ko b' = Some p \<longrightarrow> inBounds b' p = Inr True"
    using k inBounds_wellFormed [OF wf'] by auto
  then show ?thesis
    using wf' len inv r by (simp add: boardInv_def wellFormed_def)
qed

lemma boardInv_PlaceStones:
  "0 < n \<Longrightarrow> boardInv n b \<Longrightarrow> boardInv n (PlaceStones b ms)"
  by (induction ms arbitrary: b) (simp_all add: boardInv_PlaceStone)

lemma boardInv_NewBoard:
  "0 \<le> sz \<Longrightarrow> NewBoard sz = Inr b \<Longrightarrow> boardInv (nat sz) b"
  by (auto simp: NewBoard_def boardInv_def)

text \<open>
  Claim C8. \<^verbatim>\<open>NewBoard\<close> with a size of at least 1 returns a Board with every cell
  Empty and ko unset, and after every sequence of \<^verbatim>\<open>PlaceStone\<close> calls on it (so before
  and after each call) the grid is still square of that size, every cell holds one of the
  three colours, and ko is unset or a point inside the grid.
\<close>

theorem PlaceStones_invariant:
  assumes "1 \<le> sz"
  shows "\<exists>b0. NewBoard sz = Inr b0 \<and> ko b0 = None \<and>
           (\<forall>row \<in> set (board b0). \<forall>c \<in> set row. c = Empty) \<and>
           (\<forall>ms. boardInv (nat sz) (PlaceStones b0 ms) \<and>
              (\<forall>row \<in> set (board (PlaceStones b0 ms)). \<forall>c \<in> set row.
                 c = Empty \<or> c = Black \<or> c = White))"
proof -
  let ?b0 = "\<lparr>board = replicate (nat sz) (replicate (nat sz) Empty), ko = None\<rparr>"
  have nb: "NewBoard sz = Inr ?b0" using assms by (simp add: NewBoard_def)
  have "boardInv (nat sz) (PlaceStones ?b0 ms)" for ms
    using assms boardInv_NewBoard [OF _ nb] by (intro boardInv_PlaceStones) simp_all
  moreover have "c = Empty \<or> c = Black \<or> c = White" for c
    by (cases c) simp_all
  ultimately show ?thesis using nb by auto
qed

theorem PlaceStones_invariant_witness:
  "(1::int) \<le> 4 \<and> NewBoard 4 = Inr empty4 \<and> ko empty4 = None \<and>
   boardInv 4 (PlaceStones empty4 koGame) \<and>
   PlaceStones empty4 koGame = koTaken\<lparr>ko := None\<rparr>"
proof -
  have nb: "NewBoard 4 = Inr empty4" by code_simp
  have ev: "PlaceStones empty4 koGame = koTaken\<lparr>ko := None\<rparr>" by code_simp
  obtain b0 where "NewBoard 4 = Inr b0" and "ko b0 = None"
    and "\<forall>ms. boardInv (nat 4) (PlaceStones b0 ms)"
    using PlaceStones_invariant [of 4] by auto
  then have "ko empty4 = None \<and> boardInv 4 (PlaceStones empty4 koGame)"
    using nb by (auto simp del: PlaceStones.simps)
  then show ?thesis using nb ev by simp
qed

section \<open>Claim C9: where the analyzer is invoked\<close>

text \<open>
  Claim C9, as amended. During a call of \<^verbatim>\<open>PlaceStone\<close> on a well-formed Board the
  analyzer is invoked only on points inside the grid, with the stone of the move placed:
  on each neighbour of the placed point that is in bounds, whether it holds a stone or is
  Empty, and on the placed point itself, which holds the colour of the move. Every such
  call returns without panic, and a call on an Empty point returns no captured stones.
\<close>

theorem PlaceStone_calls_in_bounds:
  assumes wf: "wellFormed b" and p: "p \<in> set (PlaceStone_calls b m)"
  shows "\<exists>b1 xs. setColor (b\<lparr>ko := None\<rparr>) m = Inr b1 \<and> inBounds b1 p = Inr True \<and>
           capturedStones b1 p = Inr xs \<and> (colorAt b1 p = Inr Empty \<longrightarrow> xs = []) \<and>
           (p = Point m \<longrightarrow> colorAt b1 p = Inr (Color m))"
proof -
  let ?b = "b\<lparr>ko := None\<rparr>"
  let ?b1 = "withStone ?b m"
  have wfb: "wellFormed ?b" using wf by simp
  have pre: "inBounds ?b (Point m) = Inr True \<and> colorAt ?b (Point m) = Inr Empty"
  proof (rule ccontr)
    assume "\<not> ?thesis"
    then have "PlaceStone_calls b m = []" by (auto simp: PlaceStone_calls_def Let_def)
    then show False using p by simp
  qed
  then have on: "onBoard ?b (Point m)"
    using inBounds_wellFormed [OF wfb, of "Point m"] by simp
  have s: "setColor ?b m = Inr ?b1" by (rule setColor_onBoard [OF wfb on])
  have wf1: "wellFormed ?b1" by (rule wellFormed_withStone [OF wfb])
  have "PlaceStone_calls b m = findCapturedGroups_calls ?b1 m @
          (if findCapturedGroups ?b1 m = Inr [] then [Point m] else [])"
    using pre s by (simp add: PlaceStone_calls_def Let_def)
  then have "p \<in> set (findCapturedGroups_calls ?b1 m) \<or> p = Point m"
    using p by (cases "findCapturedGroups ?b1 m = Inr []") auto
  then have onp: "onBoard ?b1 p"
    using on by (auto simp: findCapturedGroups_calls_eq [OF wf1])
  have c: "colorAt ?b1 p = Inr (cell ?b1 p)" by (rule colorAt_onBoard [OF wf1 onp])
  have "capturedStones ?b1 p = Inr (captured ?b1 p)"
    using capturedStones_total [OF wf1 onp] by simp
  moreover have "captured ?b1 p = []" if "cell ?b1 p = Empty"
    using capturedStones_Empty [OF wf1 onp that] by (simp add: captured_def)
  moreover have "cell ?b1 (Point m) = Color m"
    using cell_withStone [OF wfb on on] by simp
  ultimately show ?thesis
    using s c inBounds_wellFormed [OF wf1, of p] onp by auto
qed

theorem PlaceStone_calls_in_bounds_witness:
  "wellFormed empty4 \<and>
   PlaceStone_calls empty4 (NewMove Black (New 0 0)) = [New 1 0, New 0 1, New 0 0] \<and>
   setColor (empty4\<lparr>ko := None\<rparr>) (NewMove Black (New 0 0)) =
     Inr (withStone empty4 (NewMove Black (New 0 0))) \<and>
   inBounds (withStone empty4 (NewMove Black (New 0 0))) (New 1 0) = Inr True \<and>
   colorAt (withStone empty4 (NewMove Black (New 0 0))) (New 1 0) = Inr Empty \<and>
   capturedStones (withStone empty4 (NewMove Black (New 0 0))) (New 1 0) = Inr []"
proof -
  have wf: "wellFormed empty4" by (simp add: wellFormed_def empty4_def)
  have calls: "PlaceStone_calls empty4 (NewMove Black (New 0 0)) = [New 1 0, New 0 1, New 0 0]"
    by code_simp
  have s: "setColor (empty4\<lparr>ko := None\<rparr>) (NewMove Black (New 0 0)) =
     Inr (withStone empty4 (NewMove Black (New 0 0)))"
    by code_simp
  have c: "colorAt (withStone empty4 (NewMove Black (New 0 0))) (New 1 0) = Inr Empty"
    by code_simp
  have "New 1 0 \<in> set (PlaceStone_calls empty4 (NewMove Black (New 0 0)))"
    using calls by simp
  from PlaceStone_calls_in_bounds [OF wf this] s c
  have "inBounds (withStone empty4 (NewMove Black (New 0 0))) (New 1 0) = Inr True \<and>
        capturedStones (withStone empty4 (NewMove Black (New 0 0))) (New 1 0) = Inr []"
    by auto
  then show ?thesis using wf calls s c by simp
qed

text \<open>The claim as stated fails: a stone placed on the empty Board has four Empty
  neighbours, and the analyzer is invoked on each of them.\<close>

theorem PlaceStone_calls_in_bounds_counterexample:
  "PlaceStone_calls empty4 (NewMove Black (New 1 1)) =
     [New 2 1, New 0 1, New 1 2, New 1 0, New 1 1] \<and>
   setColor (empty4\<lparr>ko := None\<rparr>) (NewMove Black (New 1 1)) =
     Inr (withStone empty4 (NewMove Black (New 1 1))) \<and>
   colorAt (withStone empty4 (NewMove Black (New 1 1))) (New 2 1) = Inr Empty \<and>
   snd (PlaceStone empty4 (NewMove Black (New 1 1))) = Inr []"
  by code_simp

section \<open>Claim C10: no panic\<close>

lemma PlaceStones_results_no_panic:
  "wellFormed b \<Longrightarrow> r \<in> set (PlaceStones_results b ms) \<Longrightarrow> r = Inl e \<Longrightarrow> \<not> isPanic e"
proof (induction ms arbitrary: b)
  case Nil
  then show ?case by simp
next
  case (Cons m ms)
  obtain b' r' where r': "PlaceStone b m = (b', r')" by (cases "PlaceStone b m")
  note c = PlaceStone_cases [OF Cons.prems(1) r']
  show ?case
  proof (cases "r = r'")
    case True
    then show ?thesis using c Cons.prems(3) by (auto simp: isPanic_def)
  next
    case False
    then have "r \<in> set (PlaceStones_results b' ms)" using Cons.prems(2) r' by simp
    then show ?thesis using Cons.IH [of b'] c Cons.prems(3) by simp
  qed
qed

text \<open>
  Claim C10. On a Board that \<^verbatim>\<open>NewBoard\<close> built with a size of at least 1, no call in
  any sequence of \<^verbatim>\<open>PlaceStone\<close> calls ends in the panic of the type assertion, nor in
  any other panic; and on every Board such a sequence reaches, the traversal started
  from any point never dequeues anything but a point.
\<close>

theorem PlaceStones_never_panic:
  assumes "1 \<le> sz" and "NewBoard sz = Inr b0"
  shows "(\<forall>r \<in> set (PlaceStones_results b0 ms).
            r \<noteq> Inl PanicNotPoint \<and> (\<forall>e. r = Inl e \<longrightarrow> \<not> isPanic e)) \<and>
         (\<forall>pt. capturedStones (PlaceStones b0 ms) pt \<noteq> Inl PanicNotPoint)"
proof -
  have "boardInv (nat sz) b0" using assms by (intro boardInv_NewBoard) simp_all
  then have wf: "wellFormed b0" using assms(1) by (intro boardInv_wellFormed [of "nat sz"]) simp_all
  show ?thesis
    using PlaceStones_results_no_panic [OF wf] capturedStones_points
    by (auto simp: isPanic_def)
qed

theorem PlaceStones_never_panic_witness:
  "(1::int) \<le> 4 \<and> NewBoard 4 = Inr empty4 \<and>
   PlaceStones_results empty4 koGame =
     [Inr [], Inr [], Inr [], Inr [], Inr [], Inr [], Inr [], Inr [New 2 1],
      Inl IllegalKo, Inl OutOfBounds, Inl Occupied] \<and>
   Inl PanicNotPoint \<notin> set (PlaceStones_results empty4 koGame)"
proof -
  have nb: "NewBoard 4 = Inr empty4" by code_simp
  have ev: "PlaceStones_results empty4 koGame =
     [Inr [], Inr [], Inr [], Inr [], Inr [], Inr [], Inr [], Inr [New 2 1],
      Inl IllegalKo, Inl OutOfBounds, Inl Occupied]" by code_simp
  have "Inl PanicNotPoint \<notin> set (PlaceStones_results empty4 koGame)"
  proof -
    have "(1::int) \<le> 4" by simp
    from PlaceStones_never_panic [OF this nb, of koGame] show ?thesis by blast
  qed
  then show ?thesis using nb ev by simp
qed

text \<open>The size of at least 1 is needed: \<^verbatim>\<open>NewBoard(0)\<close> returns a grid without rows, on
  which every call of \<^verbatim>\<open>PlaceStone\<close> panics in \<^verbatim>\<open>inBounds\<close>, indexing row 0.\<close>

lemma PlaceStone_size_0_panics:
  "NewBoard 0 = Inr \<lparr>board = [], ko = None\<rparr> \<and>
   snd (PlaceStone \<lparr>board = [], ko = None\<rparr> m) = Inl PanicIndex"
  by (simp add: NewBoard_def PlaceStone_def inBounds_def)

end
